theory Spec2Isabelle
  imports Complex_Main "HOL-Library.Sublist"
begin

section \<open>Python strings\<close>

text \<open>
  A Python \<open>str\<close> is modelled as a \<open>string\<close>, each \<open>char\<close> standing for one code point
  in the range U+0000 to U+00FF. \<open>isspace\<close> is the whitespace test that \<open>str.strip()\<close> and
  the pattern \<open>\s\<close> of \<open>re\<close> share, restricted to that range: tab, line feed, vertical tab,
  form feed, carriage return, the four separators 0x1C to 0x1F, space, NEL and the
  no-break space.
\<close>

definition isspace :: "char \<Rightarrow> bool" where
  "isspace c \<longleftrightarrow>
     (of_char c :: nat) \<in> {0x09, 0x0A, 0x0B, 0x0C, 0x0D, 0x1C, 0x1D, 0x1E, 0x1F, 0x20, 0x85, 0xA0}"

definition lstrip :: "string \<Rightarrow> string" where
  "lstrip s = dropWhile isspace s"

definition rstrip :: "string \<Rightarrow> string" where
  "rstrip s = rev (dropWhile isspace (rev s))"

text \<open>\<open>s.strip()\<close>\<close>

definition strip :: "string \<Rightarrow> string" where
  "strip s = rstrip (lstrip s)"

text \<open>
  \<open>s.split(sep)\<close> for a separator that is not empty: the occurrences of \<open>sep\<close> are found
  from the left and do not overlap; the result always has at least one element.
  (Python raises \<open>ValueError\<close> on an empty separator; the source only splits on
  \<open>';'\<close>, \<open>'---'\<close> and \<open>':'\<close>.)
\<close>

fun py_split :: "string \<Rightarrow> string \<Rightarrow> string list" where
  "py_split sep [] = [[]]"
| "py_split sep (c # cs) =
     (if prefix sep (c # cs) then [] # py_split sep (drop (length sep - 1) cs)
      else (case py_split sep cs of
              [] \<Rightarrow> [[c]]
            | p # ps \<Rightarrow> (c # p) # ps))"

text \<open>\<open>s.split(sep, maxsplit)\<close> with \<open>maxsplit \<ge> 0\<close>: at most \<open>maxsplit\<close> cuts.\<close>

fun py_splitn :: "string \<Rightarrow> nat \<Rightarrow> string \<Rightarrow> string list" where
  "py_splitn sep 0 s = [s]"
| "py_splitn sep (Suc n) [] = [[]]"
| "py_splitn sep (Suc n) (c # cs) =
     (if prefix sep (c # cs) then [] # py_splitn sep n (drop (length sep - 1) cs)
      else (case py_splitn sep (Suc n) cs of
              [] \<Rightarrow> [[c]]
            | p # ps \<Rightarrow> (c # p) # ps))"

text \<open>\<open>sep.join(xs)\<close>\<close>

fun py_join :: "string \<Rightarrow> string list \<Rightarrow> string" where
  "py_join sep [] = []"
| "py_join sep [x] = x"
| "py_join sep (x # y # ys) = x @ sep @ py_join sep (y # ys)"

text \<open>
  \<open>s.replace(old, new)\<close> for \<open>old\<close> not empty: every occurrence of \<open>old\<close>, found from the
  left without overlap, is replaced.
\<close>

fun py_replace :: "string \<Rightarrow> string \<Rightarrow> string \<Rightarrow> string" where
  "py_replace old new [] = []"
| "py_replace old new (c # cs) =
     (if prefix old (c # cs) then new @ py_replace old new (drop (length old - 1) cs)
      else c # py_replace old new cs)"

section \<open>thematic-batches.py: collecting categories into batches\<close>

text \<open>
  The column \<open>df[column_name]\<close> is a list of cells in row order; \<open>None\<close> is a cell for
  which \<open>pd.notna\<close> is false. A present cell holds a string, the empty string included
  (on a value of another type \<open>split\<close> would raise). What the function prints is not
  modelled.
\<close>

type_synonym column = "string option list"

text \<open>\<open>[cat.strip() for cat in value.split(';') if cat.strip()]\<close>\<close>

definition parse_categories :: "string \<Rightarrow> string list" where
  "parse_categories v = map strip (filter (\<lambda>cat. strip cat \<noteq> []) (py_split '';'' v))"

text \<open>The three local variables of \<open>collect_categories\<close>.\<close>

record collector =
  batches :: "string list list"
  current_batch :: "string list"
  current_count :: int

definition collector_init :: collector where
  "collector_init = \<lparr>batches = [], current_batch = [], current_count = 0\<rparr>"

text \<open>\<open>batches.append(current_batch); current_batch = []; current_count = 0\<close>\<close>

definition close_batch :: "collector \<Rightarrow> collector" where
  "close_batch st =
     \<lparr>batches = batches st @ [current_batch st], current_batch = [], current_count = 0\<rparr>"

text \<open>The body of the loop of the branch \<open>batch_by == 'rows'\<close>, for one row.\<close>

definition rows_step :: "int \<Rightarrow> collector \<Rightarrow> string option \<Rightarrow> collector" where
  "rows_step max_batch_size st cell =
     (case cell of
        None \<Rightarrow> st
      | Some v \<Rightarrow>
          (let categories = parse_categories v;
               st1 = (if current_count st \<ge> max_batch_size then close_batch st else st)
           in st1\<lparr>current_batch := current_batch st1 @ categories,
                  current_count := current_count st1 + 1\<rparr>))"

text \<open>The body of the loop of the \<open>else\<close> branch (batching by categories), for one row.\<close>

definition categories_step :: "int \<Rightarrow> collector \<Rightarrow> string option \<Rightarrow> collector" where
  "categories_step max_batch_size st cell =
     (case cell of
        None \<Rightarrow> st
      | Some v \<Rightarrow>
          (let categories = parse_categories v;
               st1 = (if current_count st + int (length categories) > max_batch_size
                      then close_batch st else st)
           in st1\<lparr>current_batch := current_batch st1 @ categories,
                  current_count := current_count st1 + int (length categories)\<rparr>))"

text \<open>\<open>if current_batch: batches.append(current_batch)\<close>, then \<open>return batches\<close>.\<close>

definition finish :: "collector \<Rightarrow> string list list" where
  "finish st = (if current_batch st \<noteq> [] then batches st @ [current_batch st] else batches st)"

text \<open>
  \<open>collect_categories\<close>, with \<open>self.batch_by\<close> and \<open>self.max_batch_size\<close> as arguments.
  Every value of \<open>batch_by\<close> other than \<open>'rows'\<close> takes the \<open>else\<close> branch.
\<close>

definition collect_categories :: "string \<Rightarrow> int \<Rightarrow> column \<Rightarrow> string list list" where
  "collect_categories batch_by max_batch_size col =
     (if batch_by = ''rows''
      then finish (foldl (rows_step max_batch_size) collector_init col)
      else finish (foldl (categories_step max_batch_size) collector_init col))"

section \<open>Rows and groups of rows\<close>

text \<open>
  The notions the statements about batching by rows are written with. \<open>present_rows\<close>
  are the values of the cells that the loop does not skip; \<open>chunks n\<close> cuts a list into
  consecutive groups of \<open>n\<close> elements, the last one possibly shorter (for \<open>n = 0\<close> it
  behaves as for \<open>n = 1\<close>); \<open>batch_of_rows\<close> is the batch that a group of rows
  contributes, and \<open>drop_empty_last\<close> removes a last batch without categories.
\<close>

fun present_rows :: "column \<Rightarrow> string list" where
  "present_rows [] = []"
| "present_rows (None # cells) = present_rows cells"
| "present_rows (Some v # cells) = v # present_rows cells"

fun chunks :: "nat \<Rightarrow> 'a list \<Rightarrow> 'a list list" where
  "chunks n [] = []"
| "chunks n (x # xs) = (x # take (n - 1) xs) # chunks n (drop (n - 1) xs)"

definition batch_of_rows :: "string list \<Rightarrow> string list" where
  "batch_of_rows rows = concat (map parse_categories rows)"

definition drop_empty_last :: "'a list list \<Rightarrow> 'a list list" where
  "drop_empty_last bs = (if bs \<noteq> [] \<and> last bs = [] then butlast bs else bs)"

section \<open>The remote service and its effects\<close>

text \<open>
  Exceptions are values. \<open>ServiceError\<close> stands for any exception that the call
  \<open>client.messages.create\<close> raises; \<open>IndexError\<close> is the one Python raises for an index
  that is out of range, \<open>AttributeError\<close> the one for a method that the value does not
  have.
\<close>

datatype error = IndexError | AttributeError | ServiceError

text \<open>
  What a run does besides returning a value is recorded in a trace, in order: each request
  sent to the service, each \<open>time.sleep\<close> with its duration, and the files written by
  \<open>save_intermediate_results\<close> (column, iteration, batches) and at the end of
  \<open>iterative_aggregation\<close> (column, final text).
\<close>

datatype 'rq event =
    Call 'rq
  | Sleep int
  | Save_intermediate string int "string list list"
  | Save_final string string

text \<open>
  The service is a function of its own state, unknown to the program: the same request may
  be answered differently each time, with an exception or with the list of the text blocks
  of \<open>response.content\<close>.
\<close>

record ('s, 'rq) world =
  svc_state :: 's
  trace :: "'rq event list"

type_synonym ('s, 'rq) service = "'s \<Rightarrow> 'rq \<Rightarrow> (error + string list) \<times> 's"

text \<open>Appending one event to the trace.\<close>

definition emit :: "'rq event \<Rightarrow> ('s, 'rq) world \<Rightarrow> ('s, 'rq) world" where
  "emit e w = w\<lparr>trace := trace w @ [e]\<rparr>"

text \<open>\<open>self.client.messages.create(...)\<close>: the request is recorded, the service answers.\<close>

definition call ::
  "('s, 'rq) service \<Rightarrow> 'rq \<Rightarrow> ('s, 'rq) world \<Rightarrow> (error + string list) \<times> ('s, 'rq) world" where
  "call svc rq w =
     (case svc (svc_state w) rq of
        (r, s') \<Rightarrow> (r, \<lparr>svc_state = s', trace = trace w @ [Call rq]\<rparr>))"

section \<open>thematic-batches.py: the reduction of batches\<close>

text \<open>
  The prompt of \<open>get_analysis_from_claude\<close> is a template of the configuration, filled in
  by \<open>str.format\<close> with the category type and with \<open>'; '.join(categories)\<close>. The
  templates are not part of the program: a request carries which template was selected
  and the two arguments of \<open>format\<close>.
\<close>

datatype template = Analysis_prompt | Aggregation_prompt

datatype request = Request template string string

text \<open>
  \<open>get_analysis_from_claude\<close> returns \<open>response.content[0].text\<close>: an exception of the
  service propagates, and an empty \<open>content\<close> raises \<open>IndexError\<close>.
\<close>

definition get_analysis_from_claude ::
  "('s, request) service \<Rightarrow> string list \<Rightarrow> string \<Rightarrow> bool \<Rightarrow> ('s, request) world
     \<Rightarrow> (error + string) \<times> ('s, request) world" where
  "get_analysis_from_claude svc categories category_type is_aggregation w =
     (let prompt = Request (if is_aggregation then Aggregation_prompt else Analysis_prompt)
                     category_type (py_join ''; '' categories)
      in case call svc prompt w of
           (Inl e, w1) \<Rightarrow> (Inl e, w1)
         | (Inr content, w1) \<Rightarrow>
             (case content of
                [] \<Rightarrow> (Inl IndexError, w1)
              | block # _ \<Rightarrow> (Inr block, w1)))"

text \<open>
  One pass of the \<open>for i in range(0, len(categories), 2)\<close> loop of
  \<open>iterative_aggregation\<close>, building \<open>new_categories\<close>: a full pair
  \<open>categories[i], categories[i+1]\<close> is concatenated, sent to the service, and the answer
  split on \<open>';'\<close> is appended; a last batch without partner is appended as it is.
  An exception of a call leaves the loop.
\<close>

fun merge_round ::
  "('s, request) service \<Rightarrow> string \<Rightarrow> string list list \<Rightarrow> ('s, request) world
     \<Rightarrow> (error + string list list) \<times> ('s, request) world" where
  "merge_round svc category_type [] w = (Inr [], w)"
| "merge_round svc category_type [b] w = (Inr [b], w)"
| "merge_round svc category_type (b1 # b2 # rest) w =
     (let merged_batch = b1 @ b2
      in case get_analysis_from_claude svc merged_batch category_type False w of
           (Inl e, w1) \<Rightarrow> (Inl e, w1)
         | (Inr analysis, w1) \<Rightarrow>
             (case merge_round svc category_type rest w1 of
                (Inl e, w2) \<Rightarrow> (Inl e, w2)
              | (Inr new_categories, w2) \<Rightarrow> (Inr (py_split '';'' analysis # new_categories), w2)))"

text \<open>
  The \<open>while len(categories) > 1\<close> loop: one round, then
  \<open>save_intermediate_results(iteration, categories, column)\<close> and \<open>iteration += 1\<close>.
  It returns the batches left and the value of \<open>iteration\<close>.
\<close>

function reduce_loop ::
  "('s, request) service \<Rightarrow> string \<Rightarrow> string \<Rightarrow> string list list \<Rightarrow> int \<Rightarrow> ('s, request) world
     \<Rightarrow> (error + string list list \<times> int) \<times> ('s, request) world" where
  "reduce_loop svc column category_type categories iteration w =
     (if length categories > 1
      then (case merge_round svc category_type categories w of
              (Inl e, w1) \<Rightarrow> (Inl e, w1)
            | (Inr new_categories, w1) \<Rightarrow>
                reduce_loop svc column category_type new_categories (iteration + 1)
                  (emit (Save_intermediate column iteration new_categories) w1))
      else (Inr (categories, iteration), w))"
  by pat_completeness auto
termination
proof (relation "measure (\<lambda>(svc, column, category_type, categories, iteration, w). length categories)")
  show "wf (measure (\<lambda>(svc :: ('s, request) service, column :: string, category_type :: string,
      categories :: string list list, iteration :: int, w :: ('s, request) world). length categories))"
    by simp
next
  fix svc :: "('s, request) service" and column category_type :: string
    and categories new_categories :: "string list list" and iteration :: int
    and w w1 :: "('s, request) world" and x
  assume big: "1 < length categories"
    and res: "(x, w1) = merge_round svc category_type categories w"
    and x: "x = Inr new_categories"
  have len: "length new = (length cs + 1) div 2"
    if "merge_round svc category_type cs v = (Inr new, v')" for cs new v v'
    using that
  proof (induction svc category_type cs v arbitrary: new v' rule: merge_round.induct)
    case (1 svc category_type w)
    then show ?case by simp
  next
    case (2 svc category_type b w)
    then show ?case by auto
  next
    case (3 svc category_type b1 b2 rest w)
    from "3.prems" obtain analysis w1 new' where
      a: "get_analysis_from_claude svc (b1 @ b2) category_type False w = (Inr analysis, w1)"
      and r: "merge_round svc category_type rest w1 = (Inr new', v')"
      and n: "new = py_split '';'' analysis # new'"
      by (auto simp: Let_def split: prod.splits sum.splits)
    from "3.IH" [OF refl a [symmetric] refl r] n show ?case by simp
  qed
  from res x have "merge_round svc category_type categories w = (Inr new_categories, w1)" by simp
  from len [OF this] big
  show "((svc, column, category_type, new_categories, iteration + 1,
          emit (Save_intermediate column iteration new_categories) w1),
         (svc, column, category_type, categories, iteration, w))
        \<in> measure (\<lambda>(svc, column, category_type, categories, iteration, w). length categories)"
    by simp
qed

declare reduce_loop.simps [simp del]

text \<open>
  The final aggregation: \<open>categories[0]\<close> (an \<open>IndexError\<close> on an empty list, raised
  before the call is made) is sent with \<open>is_aggregation=True\<close>, and the answer is
  written to the final file.
\<close>

definition final_aggregation ::
  "('s, request) service \<Rightarrow> string \<Rightarrow> string \<Rightarrow> string list list \<Rightarrow> ('s, request) world
     \<Rightarrow> (error + string) \<times> ('s, request) world" where
  "final_aggregation svc column category_type categories w =
     (case categories of
        [] \<Rightarrow> (Inl IndexError, w)
      | first # _ \<Rightarrow>
          (case get_analysis_from_claude svc first category_type True w of
             (Inl e, w1) \<Rightarrow> (Inl e, w1)
           | (Inr final_analysis, w1) \<Rightarrow> (Inr final_analysis, emit (Save_final column final_analysis) w1)))"

text \<open>
  \<open>iterative_aggregation\<close> from the batches on: the loop, started with \<open>iteration = 1\<close>,
  then the final aggregation.
\<close>

definition reduce_batches ::
  "('s, request) service \<Rightarrow> string \<Rightarrow> string \<Rightarrow> string list list \<Rightarrow> ('s, request) world
     \<Rightarrow> (error + string) \<times> ('s, request) world" where
  "reduce_batches svc column category_type categories w =
     (case reduce_loop svc column category_type categories 1 w of
        (Inl e, w1) \<Rightarrow> (Inl e, w1)
      | (Inr (categories', iteration), w1) \<Rightarrow>
          final_aggregation svc column category_type categories' w1)"

text \<open>
  \<open>iterative_aggregation\<close>: \<open>collect_categories\<close> on the cells \<open>df_column\<close> of the column
  named \<open>column\<close>, then the reduction. Writing a file is an event of the trace; a failure
  of the file system is not modelled.
\<close>

definition iterative_aggregation ::
  "('s, request) service \<Rightarrow> string \<Rightarrow> int \<Rightarrow> column \<Rightarrow> string \<Rightarrow> string
     \<Rightarrow> ('s, request) world \<Rightarrow> (error + string) \<times> ('s, request) world" where
  "iterative_aggregation svc batch_by max_batch_size df_column column category_type w =
     reduce_batches svc column category_type
       (collect_categories batch_by max_batch_size df_column) w"

section \<open>categorymaker.py: cleaning the answer\<close>

text \<open>The characters that \<open>clean_text\<close> names: line feed, backslash, the two quotes.\<close>

abbreviation newline :: char where "newline \<equiv> CHR 0x0A"
abbreviation backslash :: char where "backslash \<equiv> CHR 0x5C"
abbreviation quote :: char where "quote \<equiv> CHR 0x27"
abbreviation dquote :: char where "dquote \<equiv> CHR 0x22"

text \<open>
  The pattern \<^verbatim>\<open>\[?ContentBlock\(text='|'(?:, type='text')?\)\]?\<close> at the start of a
  string: the length of its match, \<open>None\<close> where it does not match. The first alternative
  is the text \<^verbatim>\<open>ContentBlock(text='\<close> after an optional \<^verbatim>\<open>[\<close>; the second is a quote,
  optionally \<^verbatim>\<open>, type='text'\<close>, a closing parenthesis and an optional \<^verbatim>\<open>]\<close>. The optional
  parts are greedy, and no string matches both alternatives.
\<close>

definition content_block_match :: "string \<Rightarrow> nat option" where
  "content_block_match s =
     (if prefix (''[ContentBlock(text='' @ [quote]) s then Some 20
      else if prefix (''ContentBlock(text='' @ [quote]) s then Some 19
      else if prefix ([quote] @ '', type='' @ [quote] @ ''text'' @ [quote] @ '')]'') s then Some 16
      else if prefix ([quote] @ '', type='' @ [quote] @ ''text'' @ [quote] @ '')'') s then Some 15
      else if prefix ([quote] @ '')]'') s then Some 3
      else if prefix ([quote] @ '')'') s then Some 2
      else None)"

text \<open>\<open>re.sub(pattern, '', text)\<close> for this pattern: every match, found from the left, is removed.\<close>

fun remove_content_block :: "string \<Rightarrow> string" where
  "remove_content_block [] = []"
| "remove_content_block (c # cs) =
     (case content_block_match (c # cs) of
        Some n \<Rightarrow> remove_content_block (drop (n - 1) cs)
      | None \<Rightarrow> c # remove_content_block cs)"

text \<open>\<open>re.sub(r'\s+', ' ', text)\<close>: every maximal run of whitespace becomes one space.\<close>

function collapse_whitespace :: "string \<Rightarrow> string" where
  "collapse_whitespace [] = []"
| "collapse_whitespace (c # cs) =
     (if isspace c then CHR '' '' # collapse_whitespace (dropWhile isspace cs)
      else c # collapse_whitespace cs)"
  by pat_completeness auto
termination
  by (relation "measure length") (auto simp: length_dropWhile_le less_Suc_eq_le)

text \<open>\<open>clean_text\<close> on a string (for any other value it returns the empty string).\<close>

definition clean_text :: "string \<Rightarrow> string" where
  "clean_text text =
     (let text = remove_content_block text;
          text = py_replace [backslash, CHR ''n''] [newline] text;
          text = py_replace [backslash] [] text;
          text = collapse_whitespace text;
          text = py_replace [quote] [] (py_replace [dquote] [] text)
      in strip text)"

text \<open>
  The strings that \<open>collapse_whitespace\<close> leaves as they are: every whitespace character
  is a space, and no whitespace character follows it.
\<close>

fun ws_norm :: "string \<Rightarrow> bool" where
  "ws_norm [] \<longleftrightarrow> True"
| "ws_norm (c # cs) \<longleftrightarrow>
     (isspace c \<longrightarrow> c = CHR '' '' \<and> (case cs of [] \<Rightarrow> True | d # _ \<Rightarrow> \<not> isspace d)) \<and> ws_norm cs"

section \<open>categorymaker.py: analysing one row\<close>

text \<open>
  The configuration that \<open>process_row\<close> reads: \<open>column_mapping\<close> in the order of the
  dictionary, \<open>analysis_context\<close>, and \<open>system_prompt\<close> if the key is there.
\<close>

record config =
  column_mapping :: "(string \<times> string) list"
  analysis_context :: string
  system_prompt :: "string option"

text \<open>
  A row of the data frame: \<open>None\<close> for a column that is not in \<open>row.index\<close>,
  \<open>Some None\<close> for a cell for which \<open>pd.notna\<close> is false, \<open>Some (Some v)\<close> for a cell
  whose value is rendered as \<open>v\<close> in the prompt.
\<close>

type_synonym row = "string \<Rightarrow> string option option"

text \<open>
  The loop over \<open>column_mapping\<close> that extends \<open>prompt\<close> by a line
  \<open>f"{topic}: {row[col]}\n"\<close> for each mapped column with a value, and sets \<open>has_data\<close>.
\<close>

fun render_fields :: "(string \<times> string) list \<Rightarrow> row \<Rightarrow> string \<times> bool \<Rightarrow> string \<times> bool" where
  "render_fields [] row (prompt, has_data) = (prompt, has_data)"
| "render_fields ((col, topic) # mapping) row (prompt, has_data) =
     (case row col of
        Some (Some v) \<Rightarrow> render_fields mapping row (prompt @ topic @ '': '' @ v @ [newline], True)
      | _ \<Rightarrow> render_fields mapping row (prompt, has_data))"

text \<open>
  The request of \<open>process_row\<close>: the system prompt and the prompt, the content of the one
  user message. Model, token limit and temperature are constants.
\<close>

datatype message_request = Message_request string string

definition max_retries :: nat where
  "max_retries = 3"

text \<open>
  What the \<open>try\<close> block returns from a response: the cleaned text of the first content
  block, or the marker for a response without content.
\<close>

definition response_text :: "string list \<Rightarrow> string" where
  "response_text content =
     (case content of
        [] \<Rightarrow> ''No content in response''
      | block # _ \<Rightarrow> clean_text block)"

text \<open>
  The loop \<open>for attempt in range(max_retries)\<close> over the attempts still to make.
  \<open>except Exception\<close> catches every exception of the call: before the last attempt it
  sleeps \<open>2 ** attempt\<close> and goes on, at the last attempt it returns the marker.
  A loop that ran out of attempts would leave the function without \<open>return\<close>: Python's
  \<open>None\<close>, here \<open>None\<close>.
\<close>

fun attempts ::
  "('s, message_request) service \<Rightarrow> message_request \<Rightarrow> nat list \<Rightarrow> ('s, message_request) world
     \<Rightarrow> string option \<times> ('s, message_request) world" where
  "attempts svc rq [] w = (None, w)"
| "attempts svc rq (attempt # rest) w =
     (case call svc rq w of
        (Inr content, w1) \<Rightarrow> (Some (response_text content), w1)
      | (Inl e, w1) \<Rightarrow>
          (if attempt < max_retries - 1
           then attempts svc rq rest (emit (Sleep (2 ^ attempt)) w1)
           else (Some ''Processing error'', w1)))"

definition default_system_prompt :: string where
  "default_system_prompt = ''You are an expert in analyzing open-ended survey responses.''"

text \<open>The request that \<open>process_row\<close> sends for a prompt.\<close>

definition row_request :: "config \<Rightarrow> string \<Rightarrow> message_request" where
  "row_request cfg prompt =
     Message_request (case system_prompt cfg of None \<Rightarrow> default_system_prompt | Some p \<Rightarrow> p) prompt"

text \<open>\<open>process_row\<close>. What it prints is not modelled.\<close>

definition process_row ::
  "config \<Rightarrow> ('s, message_request) service \<Rightarrow> row \<Rightarrow> ('s, message_request) world
     \<Rightarrow> string option \<times> ('s, message_request) world" where
  "process_row cfg svc row w =
     (case render_fields (column_mapping cfg) row (analysis_context cfg @ [newline, newline], False) of
        (prompt, has_data) \<Rightarrow>
          (if \<not> has_data then (Some ''No input data'', w)
           else attempts svc (row_request cfg prompt) [0..<max_retries] w))"

section \<open>categorymaker.py: splitting the analysis\<close>

text \<open>\<open>xs[-1]\<close>: the last element, \<open>IndexError\<close> on an empty list.\<close>

definition last_item :: "'a list \<Rightarrow> error + 'a" where
  "last_item xs = (if xs = [] then Inl IndexError else Inr (last xs))"

text \<open>
  \<open>extract_elements\<close>; the two entries of the series it returns are a pair, the primary
  part first.
\<close>

definition extract_elements :: "string \<Rightarrow> error + string \<times> string" where
  "extract_elements analysis =
     (let parts = py_split ''---'' analysis;
          primary = (if length parts > 0 then strip (parts ! 0) else []);
          secondary = (if length parts > 1 then strip (parts ! 1) else [])
      in case last_item (py_splitn '':'' 1 primary) of
           Inl e \<Rightarrow> Inl e
         | Inr primary_rest \<Rightarrow>
             (case last_item (py_splitn '':'' 1 secondary) of
                Inl e \<Rightarrow> Inl e
              | Inr secondary_rest \<Rightarrow> Inr (strip primary_rest, strip secondary_rest)))"

text \<open>
  One row through \<open>analyze_feedback\<close>: \<open>process_row\<close>, then \<open>extract_elements\<close> on its
  result (on \<open>None\<close> the call of \<open>split\<close> raises \<open>AttributeError\<close>).
\<close>

definition analyze_row ::
  "config \<Rightarrow> ('s, message_request) service \<Rightarrow> row \<Rightarrow> ('s, message_request) world
     \<Rightarrow> (error + string \<times> string) \<times> ('s, message_request) world" where
  "analyze_row cfg svc row w =
     (case process_row cfg svc row w of
        (None, w1) \<Rightarrow> (Inl AttributeError, w1)
      | (Some analysis, w1) \<Rightarrow> (extract_elements analysis, w1))"

text \<open>
  The parts of a text that the statements about \<open>extract_elements\<close> are written with:
  \<open>drop_label\<close> discards everything up to and including the first colon, if there is one.
\<close>

definition drop_label :: "string \<Rightarrow> string" where
  "drop_label s =
     (if CHR '':'' \<in> set s then tl (dropWhile (\<lambda>c. c \<noteq> CHR '':'') s) else s)"

section \<open>Services and inputs for examples\<close>

text \<open>A service without state that answers every request with the same single text block.\<close>

definition canned :: "string \<Rightarrow> (unit, 'rq) service" where
  "canned text s rq = (Inr [text], s)"

text \<open>A service without state that raises on every request.\<close>

definition failing :: "(unit, 'rq) service" where
  "failing s rq = (Inl ServiceError, s)"

text \<open>A service that raises on its first \<open>n\<close> calls and then answers; its state counts the calls.\<close>

definition flaky :: "nat \<Rightarrow> string \<Rightarrow> (nat, 'rq) service" where
  "flaky n text s rq = (if s < n then (Inl ServiceError, Suc s) else (Inr [text], Suc s))"

text \<open>The world before the first call.\<close>

definition world0 :: "(unit, 'rq) world" where
  "world0 = \<lparr>svc_state = (), trace = []\<rparr>"

text \<open>A configuration with two mapped columns, a row without a value in them, and a row with one.\<close>

definition example_config :: config where
  "example_config =
     \<lparr>column_mapping = [(''q1'', ''Question''), (''q2'', ''Other'')],
      analysis_context = ''ctx'', system_prompt = None\<rparr>"

definition empty_row :: row where
  "empty_row col = (if col = ''q1'' then Some None else None)"

definition answered_row :: row where
  "answered_row col = (if col = ''q1'' then Some (Some ''hello'') else None)"

section \<open>Properties of \<open>collect_categories\<close>\<close>

lemmas collect_defs = collect_categories_def categories_step_def rows_step_def finish_def
  collector_init_def close_batch_def

lemmas str_defs = parse_categories_def strip_def lstrip_def rstrip_def isspace_def

lemma categories_step_batches_grow:
  "\<exists>ys. batches (categories_step m st cell) = batches st @ ys"
  by (cases cell) (simp_all add: categories_step_def close_batch_def Let_def)

lemma categories_foldl_batches_grow:
  "\<exists>ys. batches (foldl (categories_step m) st xs) = batches st @ ys"
proof (induction xs arbitrary: st)
  case Nil
  show ?case by simp
next
  case (Cons x xs)
  obtain ys where ys: "batches (categories_step m st x) = batches st @ ys"
    using categories_step_batches_grow by blast
  obtain zs where "batches (foldl (categories_step m) (categories_step m st x) xs)
      = batches (categories_step m st x) @ zs"
    using Cons.IH by blast
  with ys show ?case by simp
qed

lemma categories_step_None [simp]: "categories_step m st None = st"
  by (simp add: categories_step_def)

lemma foldl_categories_step_Nones:
  "foldl (categories_step m) st (replicate n None) = st"
  by (induction n) simp_all

lemma categories_step_oversized:
  assumes "current_batch st = []" and "current_count st = 0"
    and "int (length (parse_categories v)) > m"
  shows "categories_step m st (Some v) =
    \<lparr>batches = batches st @ [[]], current_batch = parse_categories v,
     current_count = int (length (parse_categories v))\<rparr>"
  using assms by (simp add: categories_step_def close_batch_def Let_def)

text \<open>
  Claim C10. Batching by categories can put an empty batch into the output: when the
  parsed categories of a row alone are more than \<open>max_batch_size\<close> and the current
  batch is still empty (here: the first present row of the column), the overflow check
  closes the empty current batch, which becomes the first batch of the result, and the
  row's categories start the next one. The column \<open>["a;b;c"]\<close> with limit 2 is such
  an input.
\<close>

theorem collect_categories_emits_empty_batch:
  "(\<forall>m v n rest. int (length (parse_categories v)) > m \<longrightarrow>
      categories_step m collector_init (Some v) =
        \<lparr>batches = [[]], current_batch = parse_categories v,
         current_count = int (length (parse_categories v))\<rparr>
      \<and> (\<exists>bs. collect_categories ''categories'' m (replicate n None @ Some v # rest) = [] # bs))
   \<and> (\<exists>m col. [] \<in> set (collect_categories ''categories'' m col))"
proof (intro conjI allI impI)
  fix m :: int and v :: string and n :: nat and rest :: column
  assume big: "int (length (parse_categories v)) > m"
  then show st: "categories_step m collector_init (Some v) =
        \<lparr>batches = [[]], current_batch = parse_categories v,
         current_count = int (length (parse_categories v))\<rparr>"
    using categories_step_oversized [where st = collector_init and v = v and m = m] by (simp add: collector_init_def)
  obtain ys where "batches (foldl (categories_step m) (categories_step m collector_init (Some v)) rest) = batches (categories_step m collector_init (Some v)) @ ys"
    using categories_foldl_batches_grow by blast
  then have "batches (foldl (categories_step m) (categories_step m collector_init (Some v)) rest) = [] # ys"
    by (simp add: st)
  then show "\<exists>bs. collect_categories ''categories'' m (replicate n None @ Some v # rest) = [] # bs"
    by (simp add: collect_categories_def finish_def foldl_categories_step_Nones)
next
  have "collect_categories ''categories'' 2 [Some ''a;b;c''] = [[], [''a'', ''b'', ''c'']]"
    by (simp add: collect_defs str_defs)
  then have "[] \<in> set (collect_categories ''categories'' 2 [Some ''a;b;c''])"
    by simp
  then show "\<exists>m col. [] \<in> set (collect_categories ''categories'' m col)"
    by blast
qed

lemma categories_step_inv:
  assumes m: "0 \<le> m"
    and inv: "(\<forall>b \<in> set (batches st) \<union> {current_batch st}. int (length b) \<le> m \<or>
              (\<exists>v. Some v \<in> S \<and> b = parse_categories v \<and> int (length b) > m))"
    and cnt: "current_count st = int (length (current_batch st))"
    and cell: "\<forall>v. cell = Some v \<longrightarrow> Some v \<in> S"
  shows "(\<forall>b \<in> set (batches (categories_step m st cell)) \<union> {current_batch (categories_step m st cell)}.
            int (length b) \<le> m \<or>
              (\<exists>v. Some v \<in> S \<and> b = parse_categories v \<and> int (length b) > m))
         \<and> current_count (categories_step m st cell) = int (length (current_batch (categories_step m st cell)))"
proof (cases cell)
  case None
  with inv cnt show ?thesis by simp
next
  case (Some v)
  with cell have vS: "Some v \<in> S" by simp
  show ?thesis
  proof (cases "current_count st + int (length (parse_categories v)) > m")
    case True
    then have eq: "categories_step m st (Some v) =
       \<lparr>batches = batches st @ [current_batch st], current_batch = parse_categories v,
         current_count = int (length (parse_categories v))\<rparr>"
      by (simp add: categories_step_def close_batch_def Let_def)
    have "int (length (parse_categories v)) \<le> m \<or>
          (\<exists>w. Some w \<in> S \<and> parse_categories v = parse_categories w \<and> int (length (parse_categories v)) > m)"
      using vS by (cases "int (length (parse_categories v)) \<le> m") auto
    with inv show ?thesis unfolding Some eq by auto
  next
    case False
    then have eq: "categories_step m st (Some v) =
       \<lparr>batches = batches st, current_batch = current_batch st @ parse_categories v,
         current_count = current_count st + int (length (parse_categories v))\<rparr>"
      by (simp add: categories_step_def Let_def)
    from False cnt have "int (length (current_batch st @ parse_categories v)) \<le> m" by simp
    with inv cnt show ?thesis unfolding Some eq by auto
  qed
qed

lemma categories_foldl_inv:
  assumes m: "0 \<le> m"
  shows "(\<forall>b \<in> set (batches st) \<union> {current_batch st}. int (length b) \<le> m \<or>
              (\<exists>v. Some v \<in> S \<and> b = parse_categories v \<and> int (length b) > m)) \<Longrightarrow>
     current_count st = int (length (current_batch st)) \<Longrightarrow>
     set xs \<subseteq> S \<Longrightarrow>
     (\<forall>b \<in> set (batches (foldl (categories_step m) st xs)) \<union> {current_batch (foldl (categories_step m) st xs)}.
            int (length b) \<le> m \<or>
              (\<exists>v. Some v \<in> S \<and> b = parse_categories v \<and> int (length b) > m))"
proof (induction xs arbitrary: st)
  case Nil
  then show ?case by simp
next
  case (Cons x xs)
  have "\<forall>v. x = Some v \<longrightarrow> Some v \<in> S" using Cons.prems(3) by auto
  from categories_step_inv [OF m Cons.prems(1) Cons.prems(2) this]
  have a: "(\<forall>b \<in> set (batches (categories_step m st x)) \<union> {current_batch (categories_step m st x)}.
            int (length b) \<le> m \<or>
              (\<exists>v. Some v \<in> S \<and> b = parse_categories v \<and> int (length b) > m))"
    and b: "current_count (categories_step m st x) = int (length (current_batch (categories_step m st x)))"
    by blast+
  from Cons.prems(3) have "set xs \<subseteq> S" by simp
  from Cons.IH [OF a b this] show ?case by simp
qed

text \<open>
  Claim C4. Batching by categories, with a limit that is not negative: every batch
  returned has at most \<open>max_batch_size\<close> categories, or it is exactly the parsed
  categories of one single row of the column, and that row alone has more than
  \<open>max_batch_size\<close> categories.
\<close>

theorem collect_categories_batch_bound:
  assumes "0 \<le> max_batch_size"
    and "b \<in> set (collect_categories ''categories'' max_batch_size col)"
  shows "int (length b) \<le> max_batch_size \<or>
         (\<exists>v. Some v \<in> set col \<and> b = parse_categories v \<and> int (length b) > max_batch_size)"
proof -
  let ?st = "foldl (categories_step max_batch_size) collector_init col"
  have "\<forall>b \<in> set (batches ?st) \<union> {current_batch ?st}. int (length b) \<le> max_batch_size \<or>
              (\<exists>v. Some v \<in> set col \<and> b = parse_categories v \<and> int (length b) > max_batch_size)"
    by (rule categories_foldl_inv [OF assms(1)]) (simp_all add: collector_init_def assms(1))
  moreover from assms(2) have "b \<in> set (batches ?st) \<union> {current_batch ?st}"
    by (auto simp: collect_categories_def finish_def split: if_splits)
  ultimately show ?thesis by blast
qed

theorem collect_categories_batch_bound_witness:
  "(0::int) \<le> 3 \<and> [''a'', ''b''] \<in> set (collect_categories ''categories'' 3 [Some ''a;b'', Some ''c;d''])
   \<and> (int (length [''a'', ''b'']) \<le> 3 \<or>
         (\<exists>v. Some v \<in> set [Some ''a;b'', Some ''c;d''] \<and> [''a'', ''b''] = parse_categories v \<and> int (length [''a'', ''b'']) > 3))"
proof -
  have c: "collect_categories ''categories'' 3 [Some ''a;b'', Some ''c;d''] = [[''a'', ''b''], [''c'', ''d'']]"
    by (simp add: collect_defs str_defs)
  have h: "[''a'', ''b''] \<in> set (collect_categories ''categories'' 3 [Some ''a;b'', Some ''c;d''])"
    by (simp add: c)
  have z: "(0::int) \<le> 3" by simp
  from collect_categories_batch_bound [OF z h] z h show ?thesis by blast
qed

theorem collect_categories_emits_empty_batch_witness:
  "2 < int (length (parse_categories ''a;b;c''))
   \<and> categories_step 2 collector_init (Some ''a;b;c'') =
        \<lparr>batches = [[]], current_batch = parse_categories ''a;b;c'',
         current_count = int (length (parse_categories ''a;b;c''))\<rparr>
   \<and> (\<exists>bs. collect_categories ''categories'' 2 (replicate 0 None @ Some ''a;b;c'' # []) = [] # bs)"
proof -
  have h: "2 < int (length (parse_categories ''a;b;c''))"
    by (simp add: str_defs)
  from collect_categories_emits_empty_batch h show ?thesis
    by blast
qed

lemma rows_step_None [simp]: "rows_step m st None = st"
  by (simp add: rows_step_def)

lemma foldl_rows_step_present:
  "foldl (rows_step m) st col = foldl (rows_step m) st (map Some (present_rows col))"
  by (induction col arbitrary: st rule: present_rows.induct) simp_all

lemma rows_fill:
  assumes "current_count st + int (length ys) \<le> m"
  shows "foldl (rows_step m) st (map Some ys) =
     st\<lparr>current_batch := current_batch st @ batch_of_rows ys,
        current_count := current_count st + int (length ys)\<rparr>"
  using assms
proof (induction ys arbitrary: st)
  case Nil
  then show ?case by (simp add: batch_of_rows_def)
next
  case (Cons y ys)
  from Cons.prems have lt: "current_count st < m" by simp
  then have step: "rows_step m st (Some y) =
      st\<lparr>current_batch := current_batch st @ parse_categories y,
         current_count := current_count st + 1\<rparr>"
    by (simp add: rows_step_def Let_def)
  have "current_count (rows_step m st (Some y)) + int (length ys) \<le> m"
    using Cons.prems by (simp add: step)
  from Cons.IH [OF this] show ?case
    by (simp add: step batch_of_rows_def)
qed

lemma rows_step_full:
  assumes "0 < m" and "current_count st = m"
  shows "rows_step m st (Some y) = rows_step m (close_batch st) (Some y)"
  using assms by (simp add: rows_step_def close_batch_def Let_def)

lemma rows_foldl_full:
  assumes "0 < m" and "current_count st = m" and "ys \<noteq> []"
  shows "foldl (rows_step m) st (map Some ys) = foldl (rows_step m) (close_batch st) (map Some ys)"
proof (cases ys)
  case Nil
  with assms(3) show ?thesis by simp
next
  case (Cons y ys')
  then show ?thesis using rows_step_full [OF assms(1) assms(2), of y] by simp
qed

lemma chunks_nonempty: "xs \<noteq> [] \<Longrightarrow> chunks n xs \<noteq> []"
  by (cases xs) simp_all

lemma rows_run:
  "0 < n \<Longrightarrow> xs \<noteq> [] \<Longrightarrow>
    foldl (rows_step (int n)) \<lparr>batches = bs, current_batch = [], current_count = 0\<rparr> (map Some xs) =
      \<lparr>batches = bs @ map batch_of_rows (butlast (chunks n xs)),
       current_batch = batch_of_rows (last (chunks n xs)),
       current_count = int (length (last (chunks n xs)))\<rparr>"
proof (induction n xs arbitrary: bs rule: chunks.induct)
  case (1 n)
  then show ?case by simp
next
  case (2 n x xs)
  note n = "2.prems"(1)
  let ?g = "x # take (n - 1) xs"
  let ?rest = "drop (n - 1) xs"
  let ?st0 = "\<lparr>batches = bs, current_batch = [], current_count = 0\<rparr>"
  have split: "x # xs = ?g @ ?rest" by simp
  have len: "int (length ?g) \<le> int n" using n by (cases n) auto
  have fill: "foldl (rows_step (int n)) ?st0 (map Some ?g) =
      \<lparr>batches = bs, current_batch = batch_of_rows ?g, current_count = int (length ?g)\<rparr>"
    using rows_fill [of ?st0 ?g "int n"] len by simp
  show ?case
  proof (cases "?rest = []")
    case True
    then have tk: "take (n - 1) xs = xs" by simp
    have ch: "chunks n (x # xs) = [x # xs]" using True tk by simp
    from fill show ?thesis unfolding ch tk by simp
  next
    case False
    then obtain y ys where rest: "?rest = y # ys" by (cases ?rest) auto
    from False have "n - 1 < length xs" by simp
    then have full: "int (length ?g) = int n" using n by (cases n) auto
    let ?st1 = "\<lparr>batches = bs, current_batch = batch_of_rows ?g, current_count = int n\<rparr>"
    have "foldl (rows_step (int n)) ?st0 (map Some (x # xs)) =
          foldl (rows_step (int n)) ?st1 (map Some ?rest)"
      using fill full by (subst split) (simp only: map_append foldl_append)
    also have "\<dots> = foldl (rows_step (int n)) (close_batch ?st1) (map Some ?rest)"
      by (rule rows_foldl_full [OF _ _ False]) (simp_all add: n)
    also have "close_batch ?st1 = \<lparr>batches = bs @ [batch_of_rows ?g], current_batch = [], current_count = 0\<rparr>"
      by (simp add: close_batch_def)
    also have "foldl (rows_step (int n)) \<dots> (map Some ?rest) =
       \<lparr>batches = (bs @ [batch_of_rows ?g]) @ map batch_of_rows (butlast (chunks n ?rest)),
       current_batch = batch_of_rows (last (chunks n ?rest)),
       current_count = int (length (last (chunks n ?rest)))\<rparr>"
      using "2.IH" [OF n False] .
    finally show ?thesis using chunks_nonempty [OF False, of n] by simp
  qed
qed

lemma concat_chunks: "concat (chunks n xs) = xs"
  by (induction n xs rule: chunks.induct) simp_all

lemma chunks_lengths:
  "0 < n \<Longrightarrow> g \<in> set (chunks n xs) \<Longrightarrow> 0 < length g \<and> length g \<le> n"
  by (induction n xs rule: chunks.induct) auto

lemma chunks_butlast_full:
  "0 < n \<Longrightarrow> g \<in> set (butlast (chunks n xs)) \<Longrightarrow> length g = n"
proof (induction n xs rule: chunks.induct)
  case (1 n)
  then show ?case by simp
next
  case (2 n x xs)
  show ?case
  proof (cases "drop (n - 1) xs = []")
    case True
    with "2.prems" show ?thesis by simp
  next
    case False
    then have ne: "chunks n (drop (n - 1) xs) \<noteq> []" by (rule chunks_nonempty)
    from False have "n - 1 < length xs" by simp
    then have "length (x # take (n - 1) xs) = n" using "2.prems"(1) by simp
    with "2.prems" "2.IH" ne show ?thesis by auto
  qed
qed

lemma rows_collect:
  assumes "0 < m"
  shows "collect_categories ''rows'' m col =
     drop_empty_last (map batch_of_rows (chunks (nat m) (present_rows col)))"
proof (cases "present_rows col = []")
  case True
  then show ?thesis
    by (simp add: collect_categories_def foldl_rows_step_present [of m _ col] finish_def
        collector_init_def drop_empty_last_def)
next
  case False
  from assms have n: "0 < nat m" and m: "int (nat m) = m" by simp_all
  from rows_run [OF n False, of "[]"] m
  have "foldl (rows_step m) collector_init (map Some (present_rows col)) =
      \<lparr>batches = map batch_of_rows (butlast (chunks (nat m) (present_rows col))),
       current_batch = batch_of_rows (last (chunks (nat m) (present_rows col))),
       current_count = int (length (last (chunks (nat m) (present_rows col))))\<rparr>"
    by (simp add: collector_init_def)
  moreover have "chunks (nat m) (present_rows col) \<noteq> []" using False by (rule chunks_nonempty)
  ultimately show ?thesis
    by (simp add: collect_categories_def foldl_rows_step_present [of m _ col] finish_def
        drop_empty_last_def map_butlast last_map snoc_eq_iff_butlast)
qed

lemma parse_categories_a_semicolon:
  "parse_categories (''a;'' @ s) = ''a'' # parse_categories s"
  by (simp add: str_defs)

lemma parse_categories_Nil: "parse_categories [] = []"
  by (simp add: str_defs)

lemma length_parse_replicate:
  "length (parse_categories (concat (replicate k ''a;''))) = k"
proof (induction k)
  case 0
  show ?case by (simp add: parse_categories_Nil)
next
  case (Suc k)
  have "parse_categories (concat (replicate (Suc k) ''a;'')) =
        ''a'' # parse_categories (concat (replicate k ''a;''))"
    using parse_categories_a_semicolon [of "concat (replicate k ''a;'')"] by simp
  with Suc show ?case by simp
qed

lemma rows_single_row:
  assumes "0 < m"
  shows "collect_categories ''rows'' m [Some v] =
     (if parse_categories v = [] then [] else [parse_categories v])"
  using assms by (simp add: collect_defs Let_def)

text \<open>
  Claim C5. Batching by rows, with a limit of at least one: the loop closes the current
  batch exactly when the number of present rows already in it has reached
  \<open>max_batch_size\<close>, before the categories of the next present row are added. So the
  present rows of the column are cut into consecutive groups, every group but the last of
  exactly \<open>max_batch_size\<close> rows, and the batches returned are the categories of these
  groups in order (a last group without categories gives no batch). The number of
  categories in a batch is not bounded by \<open>max_batch_size\<close>: some column gives a batch
  with more.
\<close>

theorem collect_categories_rows_alignment:
  assumes "0 < max_batch_size"
  shows "(let groups = chunks (nat max_batch_size) (present_rows col) in
            collect_categories ''rows'' max_batch_size col = drop_empty_last (map batch_of_rows groups)
            \<and> concat groups = present_rows col
            \<and> (\<forall>g \<in> set (butlast groups). length g = nat max_batch_size)
            \<and> (\<forall>g \<in> set groups. 0 < length g \<and> length g \<le> nat max_batch_size))
         \<and> (\<forall>st v. batches (rows_step max_batch_size st (Some v)) =
               (if max_batch_size \<le> current_count st then batches st @ [current_batch st]
                else batches st))
         \<and> (\<exists>col' b. b \<in> set (collect_categories ''rows'' max_batch_size col')
               \<and> max_batch_size < int (length b))"
proof (intro conjI)
  from assms have n: "0 < nat max_batch_size" by simp
  show "let groups = chunks (nat max_batch_size) (present_rows col) in
            collect_categories ''rows'' max_batch_size col = drop_empty_last (map batch_of_rows groups)
            \<and> concat groups = present_rows col
            \<and> (\<forall>g \<in> set (butlast groups). length g = nat max_batch_size)
            \<and> (\<forall>g \<in> set groups. 0 < length g \<and> length g \<le> nat max_batch_size)"
    unfolding Let_def
    using rows_collect [OF assms, of col] concat_chunks [of "nat max_batch_size" "present_rows col"]
      chunks_butlast_full [OF n] chunks_lengths [OF n]
    by blast
next
  show "\<forall>st v. batches (rows_step max_batch_size st (Some v)) =
               (if max_batch_size \<le> current_count st then batches st @ [current_batch st]
                else batches st)"
    by (simp add: rows_step_def close_batch_def Let_def)
next
  let ?v = "concat (replicate (Suc (nat max_batch_size)) ''a;'')"
  have len: "length (parse_categories ?v) = Suc (nat max_batch_size)"
    by (rule length_parse_replicate)
  then have "parse_categories ?v \<noteq> []" by auto
  then have "parse_categories ?v \<in> set (collect_categories ''rows'' max_batch_size [Some ?v])"
    using rows_single_row [OF assms, of ?v] by simp
  moreover have "max_batch_size < int (length (parse_categories ?v))"
    using len by simp
  ultimately show "\<exists>col' b. b \<in> set (collect_categories ''rows'' max_batch_size col')
               \<and> max_batch_size < int (length b)"
    by blast
qed

theorem collect_categories_rows_alignment_witness:
  "(0::int) < 2 \<and>
   collect_categories ''rows'' 2 [Some ''a;b'', Some ''c'', None, Some ''d;e;f''] =
     [[''a'', ''b'', ''c''], [''d'', ''e'', ''f'']]
   \<and> chunks (nat 2) (present_rows [Some ''a;b'', Some ''c'', None, Some ''d;e;f'']) = [[''a;b'', ''c''], [''d;e;f'']]"
proof -
  have z: "(0::int) < 2" by simp
  have g: "chunks (nat 2) (present_rows [Some ''a;b'', Some ''c'', None, Some ''d;e;f'']) = [[''a;b'', ''c''], [''d;e;f'']]"
    by simp
  have b: "drop_empty_last (map batch_of_rows [[''a;b'', ''c''], [''d;e;f'']]) = [[''a'', ''b'', ''c''], [''d'', ''e'', ''f'']]"
    by (simp add: drop_empty_last_def batch_of_rows_def str_defs)
  from collect_categories_rows_alignment [OF z, of "[Some ''a;b'', Some ''c'', None, Some ''d;e;f'']"]
  have "collect_categories ''rows'' 2 [Some ''a;b'', Some ''c'', None, Some ''d;e;f''] =
      drop_empty_last (map batch_of_rows (chunks (nat 2) (present_rows [Some ''a;b'', Some ''c'', None, Some ''d;e;f''])))"
    unfolding Let_def by blast
  with z g b show ?thesis by simp
qed

text \<open>
  Why the bound and the alignment are stated for a sensible limit: with a negative limit the
  overflow check of the \<open>else\<close> branch fires on every row, also on the first, and with
  the limit 0 the check of the \<open>rows\<close> branch does.
\<close>

lemma collect_categories_negative_limit:
  "collect_categories ''categories'' (- 1) [Some ''a''] = [[], [''a'']]"
  by (simp add: collect_defs str_defs)

lemma collect_categories_rows_limit_zero:
  "collect_categories ''rows'' 0 [Some ''x;y'', Some ''z''] = [[], [''x'', ''y''], [''z'']]"
  by (simp add: collect_defs str_defs)

section \<open>Properties of the reduction\<close>

lemma get_analysis_answers:
  assumes "\<forall>s rq. \<exists>block blocks s'. svc s rq = (Inr (block # blocks), s')"
  shows "\<exists>analysis w'. get_analysis_from_claude svc categories category_type is_aggregation w = (Inr analysis, w')"
proof -
  let ?rq = "Request (if is_aggregation then Aggregation_prompt else Analysis_prompt)
               category_type (py_join ''; '' categories)"
  from assms obtain block blocks s' where "svc (svc_state w) ?rq = (Inr (block # blocks), s')"
    by blast
  then show ?thesis
    by (simp add: get_analysis_from_claude_def call_def)
qed

lemma merge_round_answers:
  assumes svc: "\<forall>s rq. \<exists>block blocks s'. svc s rq = (Inr (block # blocks), s')"
  shows "\<exists>new w'. merge_round svc category_type categories w = (Inr new, w')"
proof (induction categories arbitrary: w rule: induct_list012)
  case 1
  show ?case by simp
next
  case (2 b)
  show ?case by simp
next
  case (3 b1 b2 rest)
  obtain analysis w1 where
    a: "get_analysis_from_claude svc (b1 @ b2) category_type False w = (Inr analysis, w1)"
    using get_analysis_answers [OF svc] by blast
  obtain new w2 where "merge_round svc category_type rest w1 = (Inr new, w2)"
    using "3.IH"(1) by blast
  with a show ?case by simp
qed

lemma merge_round_length:
  "merge_round svc category_type categories w = (Inr new, w') \<Longrightarrow>
     length new = (length categories + 1) div 2"
proof (induction categories arbitrary: w new rule: induct_list012)
  case 1
  then show ?case by simp
next
  case (2 b)
  then show ?case by auto
next
  case (3 b1 b2 rest)
  from "3.prems" obtain analysis w1 new' where
    r: "merge_round svc category_type rest w1 = (Inr new', w')"
    and n: "new = py_split '';'' analysis # new'"
    by (auto simp: Let_def split: prod.splits sum.splits)
  from "3.IH"(1) [OF r] n show ?case by simp
qed

lemma merge_round_last:
  "odd (length categories) \<Longrightarrow> merge_round svc category_type categories w = (Inr new, w') \<Longrightarrow>
     last new = last categories"
proof (induction categories arbitrary: w new rule: induct_list012)
  case 1
  then show ?case by simp
next
  case (2 b)
  then show ?case by auto
next
  case (3 b1 b2 rest)
  from "3.prems"(2) obtain analysis w1 new' where
    r: "merge_round svc category_type rest w1 = (Inr new', w')"
    and n: "new = py_split '';'' analysis # new'"
    by (auto simp: Let_def split: prod.splits sum.splits)
  from "3.prems"(1) have odd: "odd (length rest)" by simp
  then have "rest \<noteq> []" by auto
  moreover from merge_round_length [OF r] odd have "new' \<noteq> []" by auto
  moreover have "last new' = last rest" using "3.IH"(1) [OF odd r] .
  ultimately show ?case using n by simp
qed

lemma ceiling_log2_halve:
  assumes "2 \<le> n"
  shows "\<lceil>log 2 (real n)\<rceil> = \<lceil>log 2 (real ((n + 1) div 2))\<rceil> + 1"
proof -
  from assms have "(n - 1) div 2 + 1 = (n + 1) div 2" by presburger
  then show ?thesis using ceiling_log2_div2 [OF assms] by (simp only:)
qed

lemma reduce_loop_returns:
  "reduce_loop svc column category_type categories iteration w = (Inr (final, iteration'), w') \<Longrightarrow>
   categories \<noteq> [] \<Longrightarrow>
   length final = 1 \<and> iteration' = iteration + \<lceil>log 2 (real (length categories))\<rceil>"
proof (induction svc column category_type categories iteration w rule: reduce_loop.induct)
  case (1 svc column category_type categories iteration w)
  show ?case
  proof (cases "1 < length categories")
    case False
    with "1.prems" have "length categories = 1" by (cases categories) auto
    moreover from False "1.prems"(1) have "final = categories" "iteration' = iteration"
      by (simp_all add: reduce_loop.simps [of svc column category_type categories])
    ultimately show ?thesis by simp
  next
    case True
    from True "1.prems"(1) obtain new w1 where
      m: "merge_round svc category_type categories w = (Inr new, w1)"
      and r: "reduce_loop svc column category_type new (iteration + 1)
                (emit (Save_intermediate column iteration new) w1) = (Inr (final, iteration'), w')"
      by (auto simp: reduce_loop.simps [of svc column category_type categories]
          split: prod.splits sum.splits)
    have len: "length new = (length categories + 1) div 2" using m by (rule merge_round_length)
    with True have ne: "new \<noteq> []" by auto
    from "1.IH" [OF True m [symmetric] refl r ne]
    have "length final = 1" and "iteration' = iteration + 1 + \<lceil>log 2 (real (length new))\<rceil>"
      by simp_all
    moreover have "\<lceil>log 2 (real (length categories))\<rceil> = \<lceil>log 2 (real (length new))\<rceil> + 1"
      using ceiling_log2_halve [of "length categories"] True len by simp
    ultimately show ?thesis by simp
  qed
qed

lemma reduce_loop_answers:
  assumes svc: "\<forall>s rq. \<exists>block blocks s'. svc s rq = (Inr (block # blocks), s')"
  shows "\<exists>r w'. reduce_loop svc column category_type categories iteration w = (Inr r, w')"
proof (induction "length categories" arbitrary: categories iteration w rule: less_induct)
  case less
  show ?case
  proof (cases "1 < length categories")
    case False
    then show ?thesis by (simp add: reduce_loop.simps [of svc column category_type categories])
  next
    case True
    obtain new w1 where m: "merge_round svc category_type categories w = (Inr new, w1)"
      using merge_round_answers [OF svc] by blast
    from merge_round_length [OF m] True have "length new < length categories" by simp
    from less [OF this] obtain r w' where
      "reduce_loop svc column category_type new (iteration + 1)
         (emit (Save_intermediate column iteration new) w1) = (Inr r, w')"
      by blast
    with True m show ?thesis
      by (simp add: reduce_loop.simps [of svc column category_type categories])
  qed
qed

lemma ceiling_log2_power: "\<lceil>log 2 (real ((2::nat) ^ k))\<rceil> = int k"
  by simp

text \<open>
  Claim C1. When the loop of \<open>iterative_aggregation\<close> starts with \<open>2 ^ k\<close> batches,
  \<open>k \<ge> 1\<close>, and returns, it has made exactly \<open>k\<close> rounds, which is the ceiling of the
  binary logarithm of the number of batches, and exactly one batch is left. A round on
  an odd number of batches hands the last batch on unchanged. Both are statements about a
  loop that returns: it does, and so does every round, whenever each call of the service
  answers with at least one text block (an exception of the service ends the run).
\<close>

theorem reduce_loop_rounds:
  "(\<forall>k categories column category_type iteration w final iteration' w'.
      length categories = 2 ^ k \<and> 1 \<le> k \<and>
      reduce_loop svc column category_type categories iteration w = (Inr (final, iteration'), w') \<longrightarrow>
        iteration' = iteration + int k \<and> length final = 1
        \<and> \<lceil>log 2 (real (length categories))\<rceil> = int k)
   \<and> (\<forall>categories category_type w new w'.
        odd (length categories) \<and> merge_round svc category_type categories w = (Inr new, w') \<longrightarrow>
          last new = last categories \<and> length new = (length categories + 1) div 2)
   \<and> ((\<forall>s rq. \<exists>block blocks s'. svc s rq = (Inr (block # blocks), s')) \<longrightarrow>
        (\<forall>column category_type categories iteration w.
           (\<exists>r w'. reduce_loop svc column category_type categories iteration w = (Inr r, w'))
           \<and> (\<exists>new w'. merge_round svc category_type categories w = (Inr new, w'))))"
proof (intro conjI allI impI)
  fix k categories column category_type iteration w final iteration' w'
  assume h: "length categories = 2 ^ k \<and> 1 \<le> k \<and>
      reduce_loop svc column category_type categories iteration w = (Inr (final, iteration'), w')"
  then have ne: "categories \<noteq> []" by auto
  from h have lg: "\<lceil>log 2 (real (length categories))\<rceil> = int k"
    using ceiling_log2_power [of k] by simp
  from h reduce_loop_returns [OF _ ne, of svc column category_type iteration w final iteration' w']
  have "length final = 1 \<and> iteration' = iteration + \<lceil>log 2 (real (length categories))\<rceil>"
    by blast
  with lg show "iteration' = iteration + int k" and "length final = 1" by simp_all
  from lg show "\<lceil>log 2 (real (length categories))\<rceil> = int k" .
next
  fix categories category_type w new w'
  assume h: "odd (length categories) \<and> merge_round svc category_type categories w = (Inr new, w')"
  then show "last new = last categories" using merge_round_last by blast
  from h show "length new = (length categories + 1) div 2" using merge_round_length by blast
next
  fix column category_type categories iteration w
  assume svc: "\<forall>s rq. \<exists>block blocks s'. svc s rq = (Inr (block # blocks), s')"
  show "\<exists>r w'. reduce_loop svc column category_type categories iteration w = (Inr r, w')"
    using reduce_loop_answers [OF svc] .
  show "\<exists>new w'. merge_round svc category_type categories w = (Inr new, w')"
    using merge_round_answers [OF svc] .
qed

lemmas thematic_defs = get_analysis_from_claude_def call_def emit_def canned_def world0_def

theorem reduce_loop_rounds_witness:
  "length [[''a''], [''b'']] = 2 ^ 1 \<and> (1::nat) \<le> 1
   \<and> reduce_loop (canned ''x;y'') ''col'' ''themes'' [[''a''], [''b'']] 1 world0 =
        (Inr ([[''x'', ''y'']], 2),
         \<lparr>svc_state = (),
          trace = [Call (Request Analysis_prompt ''themes'' ''a; b''),
                   Save_intermediate ''col'' 1 [[''x'', ''y'']]]\<rparr>)
   \<and> (2::int) = 1 + int 1 \<and> length [[''x'', ''y'']] = 1
   \<and> \<lceil>log 2 (real (length [[''a''], [''b'']]))\<rceil> = int 1
   \<and> odd (length [[''a''], [''b''], [''c'']])
   \<and> merge_round (canned ''x;y'') ''themes'' [[''a''], [''b''], [''c'']] world0 =
        (Inr [[''x'', ''y''], [''c'']],
         \<lparr>svc_state = (), trace = [Call (Request Analysis_prompt ''themes'' ''a; b'')]\<rparr>)
   \<and> last [[''x'', ''y''], [''c'']] = last [[''a''], [''b''], [''c'']]
   \<and> (\<forall>s rq. \<exists>block blocks s'.
         (canned ''x;y'' :: (unit, request) service) s rq = (Inr (block # blocks), s'))
   \<and> (\<exists>r w'. reduce_loop (canned ''x;y'') ''col'' ''themes'' [[''a''], [''b''], [''c'']] 1 world0
         = (Inr r, w'))"
proof -
  have r: "reduce_loop (canned ''x;y'') ''col'' ''themes'' [[''a''], [''b'']] 1 world0 =
        (Inr ([[''x'', ''y'']], 2),
         \<lparr>svc_state = (),
          trace = [Call (Request Analysis_prompt ''themes'' ''a; b''),
                   Save_intermediate ''col'' 1 [[''x'', ''y'']]]\<rparr>)"
    by (simp add: reduce_loop.simps [of _ _ _ "[[''a''], [''b'']]"]
        reduce_loop.simps [of _ _ _ "[[''x'', ''y'']]"] thematic_defs)
  have m3: "merge_round (canned ''x;y'') ''themes'' [[''a''], [''b''], [''c'']] world0 =
        (Inr [[''x'', ''y''], [''c'']],
         \<lparr>svc_state = (), trace = [Call (Request Analysis_prompt ''themes'' ''a; b'')]\<rparr>)"
    by (simp add: thematic_defs)
  have l: "length [[''a''], [''b'']] = 2 ^ 1 \<and> (1::nat) \<le> 1" by simp
  have o: "odd (length [[''a''], [''b''], [''c'']])" by simp
  have s: "\<forall>s rq. \<exists>block blocks s'.
      (canned ''x;y'' :: (unit, request) service) s rq = (Inr (block # blocks), s')"
    by (simp add: canned_def)
  note T = reduce_loop_rounds [of "canned ''x;y''"]
  from T l r have a: "(2::int) = 1 + int 1 \<and> length [[''x'', ''y'']] = 1
      \<and> \<lceil>log 2 (real (length [[''a''], [''b'']]))\<rceil> = int 1"
    by blast
  from T o m3 have b: "last [[''x'', ''y''], [''c'']] = last [[''a''], [''b''], [''c'']]"
    by blast
  from T s have c: "\<exists>r w'. reduce_loop (canned ''x;y'') ''col'' ''themes''
      [[''a''], [''b''], [''c'']] 1 world0 = (Inr r, w')"
    by blast
  from l r a o m3 b s c show ?thesis by blast
qed

text \<open>
  Claim C3 (the code at the input of the claim). On an empty list of batches the loop is
  skipped and \<open>categories[0]\<close> raises \<open>IndexError\<close>: the run ends with this exception, no
  request has been sent and nothing has been written. The same holds for
  \<open>iterative_aggregation\<close> on a column without rows or without present cells.
\<close>

theorem reduce_batches_empty_raises:
  "reduce_batches svc column category_type [] w = (Inl IndexError, w)
   \<and> iterative_aggregation svc batch_by max_batch_size [] column category_type w = (Inl IndexError, w)
   \<and> iterative_aggregation svc batch_by max_batch_size [None, None] column category_type w
       = (Inl IndexError, w)"
  by (simp add: iterative_aggregation_def reduce_batches_def final_aggregation_def
      reduce_loop.simps [of _ _ _ "[]"] collect_categories_def finish_def collector_init_def
      rows_step_def categories_step_def)

text \<open>
  Claim C2 (the code at an input where it differs from the claim). The batch that a merge
  of two batches produces is the answer split on \<open>';'\<close> and nothing more: for the answer
  \<open>"x; y;"\<close> it is \<open>["x", " y", ""]\<close>, with a padded and an empty entry, where
  \<open>collect_categories\<close> parses the same text to \<open>["x", "y"]\<close>.
\<close>

theorem merge_round_keeps_raw_tokens:
  "merge_round (canned ''x; y;'') ''themes'' [[''a''], [''b'']] world0 =
     (Inr [[''x'', '' y'', '''']],
      \<lparr>svc_state = (), trace = [Call (Request Analysis_prompt ''themes'' ''a; b'')]\<rparr>)
   \<and> parse_categories ''x; y;'' = [''x'', ''y'']"
  by (simp add: thematic_defs parse_categories_def strip_def lstrip_def rstrip_def isspace_def)

section \<open>Properties of \<open>process_row\<close> and \<open>extract_elements\<close>\<close>

lemma range_max_retries: "[0..<max_retries] = [0, 1, 2]"
  by (simp add: max_retries_def upt_rec)

lemma render_fields_has_data:
  "snd (render_fields mapping row (prompt, has_data)) \<longleftrightarrow>
     has_data \<or> (\<exists>(col, topic) \<in> set mapping. \<exists>v. row col = Some (Some v))"
proof (induction mapping arbitrary: prompt has_data)
  case Nil
  show ?case by simp
next
  case (Cons a mapping)
  obtain col topic where a: "a = (col, topic)" by (cases a)
  show ?case
  proof (cases "row col")
    case None
    with Cons.IH show ?thesis unfolding a by simp
  next
    case (Some cell)
    show ?thesis
    proof (cases cell)
      case None
      with Some Cons.IH show ?thesis unfolding a by simp
    next
      case (Some v)
      with \<open>row col = Some cell\<close> Cons.IH show ?thesis unfolding a by auto
    qed
  qed
qed

lemma render_fields_no_data:
  assumes "\<forall>(col, topic) \<in> set mapping. row col = None \<or> row col = Some None"
  shows "render_fields mapping row (prompt, has_data) = (prompt, has_data)"
  using assms
proof (induction mapping)
  case Nil
  show ?case by simp
next
  case (Cons a mapping)
  obtain col topic where a: "a = (col, topic)" by (cases a)
  from Cons.prems have "row col = None \<or> row col = Some None" unfolding a by simp
  moreover from Cons have "render_fields mapping row (prompt, has_data) = (prompt, has_data)"
    by simp
  ultimately show ?case unfolding a by auto
qed

text \<open>
  Claim C7. For a row with data, \<open>process_row\<close> sends its request at most three times.
  With \<open>r1\<close>, \<open>r2\<close>, \<open>r3\<close> the outcomes of the service at the successive attempts:
  the first answer ends the loop with the text of the response; after the failed attempt
  0 it sleeps \<open>2 ^ 0\<close>, after the failed attempt 1 it sleeps \<open>2 ^ 1\<close>, each time before the
  next attempt; after the third failed attempt it returns \<open>"Processing error"\<close>. The result
  is a string in every case: no exception of the service reaches the caller.
\<close>

theorem process_row_retries:
  assumes data: "\<exists>(col, topic) \<in> set (column_mapping cfg). \<exists>v. row col = Some (Some v)"
    and rq: "rq = row_request cfg
               (fst (render_fields (column_mapping cfg) row
                      (analysis_context cfg @ [newline, newline], False)))"
    and a1: "svc (svc_state w) rq = (r1, s1)"
    and a2: "svc s1 rq = (r2, s2)"
    and a3: "svc s2 rq = (r3, s3)"
  shows "process_row cfg svc row w =
     (case r1 of
        Inr content \<Rightarrow> (Some (response_text content), \<lparr>svc_state = s1, trace = trace w @ [Call rq]\<rparr>)
      | Inl _ \<Rightarrow>
         (case r2 of
            Inr content \<Rightarrow>
              (Some (response_text content),
               \<lparr>svc_state = s2, trace = trace w @ [Call rq, Sleep (2 ^ 0), Call rq]\<rparr>)
          | Inl _ \<Rightarrow>
             (case r3 of
                Inr content \<Rightarrow>
                  (Some (response_text content),
                   \<lparr>svc_state = s3,
                    trace = trace w @ [Call rq, Sleep (2 ^ 0), Call rq, Sleep (2 ^ 1), Call rq]\<rparr>)
              | Inl _ \<Rightarrow>
                  (Some ''Processing error'',
                   \<lparr>svc_state = s3,
                    trace = trace w @ [Call rq, Sleep (2 ^ 0), Call rq, Sleep (2 ^ 1), Call rq]\<rparr>))))"
proof -
  obtain prompt has_data where
    fields: "render_fields (column_mapping cfg) row (analysis_context cfg @ [newline, newline], False)
               = (prompt, has_data)"
    by (cases "render_fields (column_mapping cfg) row (analysis_context cfg @ [newline, newline], False)")
  from data render_fields_has_data [of "column_mapping cfg" row "analysis_context cfg @ [newline, newline]" False]
  have has_data by (simp add: fields)
  with fields rq have loop: "process_row cfg svc row w = attempts svc rq [0, 1, 2] w"
    by (simp add: process_row_def range_max_retries)
  show ?thesis
  proof (cases r1)
    case (Inr content)
    with a1 show ?thesis by (simp add: loop call_def)
  next
    case e1: (Inl e)
    show ?thesis
    proof (cases r2)
      case (Inr content)
      with e1 a1 a2 show ?thesis by (simp add: loop call_def emit_def max_retries_def)
    next
      case e2: (Inl e')
      show ?thesis
      proof (cases r3)
        case (Inr content)
        with e1 e2 a1 a2 a3 show ?thesis by (simp add: loop call_def emit_def max_retries_def)
      next
        case (Inl e'')
        with e1 e2 a1 a2 a3 show ?thesis by (simp add: loop call_def emit_def max_retries_def)
      qed
    qed
  qed
qed

theorem process_row_retries_witness:
  "column_mapping example_config = [(''q1'', ''Question''), (''q2'', ''Other'')]
   \<and> answered_row ''q1'' = Some (Some ''hello'')
   \<and> process_row example_config failing answered_row world0 =
      (Some ''Processing error'',
       \<lparr>svc_state = (),
        trace = [Call (Message_request default_system_prompt (''ctx'' @ [newline, newline] @ ''Question: hello'' @ [newline])),
                 Sleep 1,
                 Call (Message_request default_system_prompt (''ctx'' @ [newline, newline] @ ''Question: hello'' @ [newline])),
                 Sleep 2,
                 Call (Message_request default_system_prompt (''ctx'' @ [newline, newline] @ ''Question: hello'' @ [newline]))]\<rparr>)
   \<and> process_row example_config (flaky 1 ''Primary: a --- Secondary: b'') answered_row
        \<lparr>svc_state = 0, trace = []\<rparr> =
      (Some ''Primary: a --- Secondary: b'',
       \<lparr>svc_state = 2,
        trace = [Call (Message_request default_system_prompt (''ctx'' @ [newline, newline] @ ''Question: hello'' @ [newline])),
                 Sleep 1,
                 Call (Message_request default_system_prompt (''ctx'' @ [newline, newline] @ ''Question: hello'' @ [newline]))]\<rparr>)"
proof -
  let ?prompt = "''ctx'' @ [newline, newline] @ ''Question: hello'' @ [newline]"
  let ?rq = "Message_request default_system_prompt ?prompt"
  have m: "column_mapping example_config = [(''q1'', ''Question''), (''q2'', ''Other'')]"
    and q1: "answered_row ''q1'' = Some (Some ''hello'')"
    by (simp_all add: example_config_def answered_row_def)
  have d: "\<exists>(col, topic) \<in> set (column_mapping example_config). \<exists>v. answered_row col = Some (Some v)"
    by (simp add: m q1)
  have rq: "?rq = row_request example_config
      (fst (render_fields (column_mapping example_config) answered_row
             (analysis_context example_config @ [newline, newline], False)))"
    by (simp add: row_request_def example_config_def answered_row_def)
  have c: "failing (svc_state (world0 :: (unit, message_request) world)) ?rq = (Inl ServiceError, ())"
      "failing () ?rq = (Inl ServiceError, ())"
    by (simp_all add: failing_def)
  have f: "flaky 1 ''Primary: a --- Secondary: b'' (svc_state \<lparr>svc_state = 0, trace = []\<rparr>) ?rq
        = (Inl ServiceError, 1)"
      "flaky 1 ''Primary: a --- Secondary: b'' 1 ?rq = (Inr [''Primary: a --- Secondary: b''], 2)"
      "flaky 1 ''Primary: a --- Secondary: b'' 2 ?rq = (Inr [''Primary: a --- Secondary: b''], 3)"
    by (simp_all add: flaky_def)
  have t: "response_text [''Primary: a --- Secondary: b''] = ''Primary: a --- Secondary: b''"
    by (simp add: response_text_def clean_text_def content_block_match_def strip_def lstrip_def
        rstrip_def isspace_def)
  have p1: "process_row example_config failing answered_row world0 =
      (Some ''Processing error'',
       \<lparr>svc_state = (), trace = [Call ?rq, Sleep 1, Call ?rq, Sleep 2, Call ?rq]\<rparr>)"
    using process_row_retries [where cfg = example_config and row = answered_row and rq = ?rq
      and svc = failing and w = world0 and ?r1.0 = "Inl ServiceError" and ?r2.0 = "Inl ServiceError"
      and ?r3.0 = "Inl ServiceError" and ?s1.0 = "()" and ?s2.0 = "()" and ?s3.0 = "()",
      OF d rq c(1) c(2) c(2)]
    by (simp add: world0_def)
  have p2: "process_row example_config (flaky 1 ''Primary: a --- Secondary: b'') answered_row
        \<lparr>svc_state = 0, trace = []\<rparr> =
      (Some ''Primary: a --- Secondary: b'',
       \<lparr>svc_state = 2, trace = [Call ?rq, Sleep 1, Call ?rq]\<rparr>)"
    using process_row_retries [where cfg = example_config and row = answered_row and rq = ?rq
      and svc = "flaky 1 ''Primary: a --- Secondary: b''" and w = "\<lparr>svc_state = 0, trace = []\<rparr>",
      OF d rq f(1) f(2) f(3)]
    by (simp add: t)
  from m q1 p1 p2 show ?thesis by blast
qed

lemmas strip_defs = strip_def lstrip_def rstrip_def isspace_def
lemmas extract_defs = extract_elements_def last_item_def

lemma extract_no_input_data: "extract_elements ''No input data'' = Inr (''No input data'', [])"
  by (simp add: extract_defs strip_defs)

text \<open>
  Claim C6, amended. For a record in which no mapped field has a value, \<open>process_row\<close>
  returns \<open>"No input data"\<close> and the world is unchanged (no request is sent);
  \<open>extract_elements\<close> then gives the primary part \<open>"No input data"\<close> and the secondary
  part \<open>""\<close>, the marker having no separator.
\<close>

theorem analyze_row_no_data:
  assumes "\<forall>(col, topic) \<in> set (column_mapping cfg). row col = None \<or> row col = Some None"
  shows "process_row cfg svc row w = (Some ''No input data'', w)
         \<and> analyze_row cfg svc row w = (Inr (''No input data'', []), w)"
proof -
  have "render_fields (column_mapping cfg) row (analysis_context cfg @ [newline, newline], False)
        = (analysis_context cfg @ [newline, newline], False)"
    using assms by (rule render_fields_no_data)
  then have p: "process_row cfg svc row w = (Some ''No input data'', w)"
    by (simp add: process_row_def)
  then show ?thesis
    by (simp add: analyze_row_def extract_no_input_data)
qed

text \<open>
  Claim C6 as stated fails: for the row of the example the secondary part is empty, not
  \<open>"No input data"\<close>.
\<close>

theorem analyze_row_no_data_counterexample:
  "analyze_row example_config failing empty_row world0 = (Inr (''No input data'', []), world0)
   \<and> [] \<noteq> ''No input data''"
  by (simp add: analyze_row_def process_row_def extract_no_input_data example_config_def
      empty_row_def)

theorem analyze_row_no_data_witness:
  "column_mapping example_config = [(''q1'', ''Question''), (''q2'', ''Other'')]
   \<and> empty_row ''q1'' = Some None \<and> empty_row ''q2'' = None
   \<and> process_row example_config (canned ''Primary: a --- Secondary: b'') empty_row world0
      = (Some ''No input data'', world0)
   \<and> analyze_row example_config (canned ''Primary: a --- Secondary: b'') empty_row world0
      = (Inr (''No input data'', []), world0)"
proof -
  have h: "\<forall>(col, topic) \<in> set (column_mapping example_config).
      empty_row col = None \<or> empty_row col = Some None"
    by (simp add: example_config_def empty_row_def)
  have e: "column_mapping example_config = [(''q1'', ''Question''), (''q2'', ''Other'')]
      \<and> empty_row ''q1'' = Some None \<and> empty_row ''q2'' = None"
    by (simp add: example_config_def empty_row_def)
  from e analyze_row_no_data [OF h, of "canned ''Primary: a --- Secondary: b''" world0]
  show ?thesis by blast
qed

lemma py_split_nonempty [simp]: "py_split sep s \<noteq> []"
  by (induction sep s rule: py_split.induct) (auto split: list.splits)

lemma py_splitn_nonempty [simp]: "py_splitn sep n s \<noteq> []"
  by (induction sep n s rule: py_splitn.induct) (auto split: list.splits)

lemma prefix_imp_sublist: "prefix xs ys \<Longrightarrow> sublist xs ys"
  by (auto simp: prefix_def sublist_def intro: exI [of _ "[]"])

lemma py_split_no_sep:
  "sep \<noteq> [] \<Longrightarrow> \<not> sublist sep s \<Longrightarrow> py_split sep s = [s]"
proof (induction s)
  case Nil
  show ?case by simp
next
  case (Cons c cs)
  from Cons.prems(2) have np: "\<not> prefix sep (c # cs)" using prefix_imp_sublist by blast
  from Cons.prems(2) have "\<not> sublist sep cs" by (auto simp: sublist_Cons_right)
  with Cons.IH Cons.prems(1) have "py_split sep cs = [cs]" by simp
  with np show ?case by simp
qed

lemma py_split_first:
  "sep \<noteq> [] \<Longrightarrow> \<not> sublist sep (p @ butlast sep) \<Longrightarrow>
     py_split sep (p @ sep @ r) = p # py_split sep r"
proof (induction p)
  case Nil
  then obtain a as where sep: "sep = a # as" by (cases sep) auto
  show ?case by (simp add: sep)
next
  case (Cons x p)
  have np: "\<not> prefix sep (x # p @ sep @ r)"
  proof
    assume pre: "prefix sep (x # p @ sep @ r)"
    have "x # p @ sep @ r = ((x # p) @ butlast sep) @ (last sep # r)"
      using Cons.prems(1) by simp
    with pre have "prefix sep (((x # p) @ butlast sep) @ (last sep # r))" by simp
    moreover have "length sep \<le> length ((x # p) @ butlast sep)" by simp
    ultimately have "prefix sep ((x # p) @ butlast sep)"
      by (metis prefix_length_prefix prefixI)
    with Cons.prems(2) show False using prefix_imp_sublist by blast
  qed
  from Cons.prems(2) have "\<not> sublist sep (p @ butlast sep)"
    by (auto simp: sublist_Cons_right)
  with Cons.IH Cons.prems(1) have "py_split sep (p @ sep @ r) = p # py_split sep r" by simp
  with np show ?case by simp
qed

lemma py_splitn_colon:
  "py_splitn '':'' (Suc 0) s =
     (if CHR '':'' \<in> set s
      then [takeWhile (\<lambda>c. c \<noteq> CHR '':'') s, tl (dropWhile (\<lambda>c. c \<noteq> CHR '':'') s)]
      else [s])"
  by (induction s) auto

lemma last_py_splitn_colon: "last (py_splitn '':'' (Suc 0) s) = drop_label s"
  by (simp add: py_splitn_colon drop_label_def)

lemma dropWhile_rev_snoc:
  "dropWhile P (rev xs @ [x]) = (if P x \<and> (\<forall>y \<in> set xs. P y) then [] else dropWhile P (rev xs) @ [x])"
  by (auto simp: dropWhile_append)

lemma lstrip_rstrip_commute: "lstrip (rstrip s) = rstrip (lstrip s)"
proof (induction s)
  case Nil
  show ?case by (simp add: lstrip_def rstrip_def)
next
  case (Cons x xs)
  show ?case
  proof (cases "isspace x")
    case True
    show ?thesis
    proof (cases "\<forall>y \<in> set xs. isspace y")
      case all: True
      with True show ?thesis
        by (auto simp: lstrip_def rstrip_def dropWhile_rev_snoc dest: set_dropWhileD)
    next
      case False
      with True Cons.IH show ?thesis
        by (auto simp: lstrip_def rstrip_def dropWhile_rev_snoc)
    qed
  next
    case False
    then show ?thesis
      by (simp add: lstrip_def rstrip_def dropWhile_rev_snoc)
  qed
qed

lemma lstrip_idem: "lstrip (lstrip s) = lstrip s"
  by (simp add: lstrip_def)

lemma rstrip_idem: "rstrip (rstrip s) = rstrip s"
  by (simp add: rstrip_def)

lemma strip_idem: "strip (strip s) = strip s"
  by (simp add: strip_def lstrip_rstrip_commute lstrip_idem rstrip_idem)

lemma strip_rstrip: "strip (rstrip s) = strip s"
  by (simp add: strip_def lstrip_rstrip_commute rstrip_idem)

lemma colon_not_space: "\<not> isspace (CHR '':'')"
  by (simp add: isspace_def)

lemma rstrip_keep:
  "\<not> isspace c \<Longrightarrow> rstrip (xs @ c # ys) = xs @ c # rstrip ys"
  by (simp add: rstrip_def dropWhile_append)

lemma drop_label_split:
  "CHR '':'' \<notin> set a \<Longrightarrow> drop_label (a @ CHR '':'' # b) = b"
  by (simp add: drop_label_def dropWhile_append)

lemma colon_split:
  assumes "CHR '':'' \<in> set t"
  obtains a b where "t = a @ CHR '':'' # b" and "CHR '':'' \<notin> set a"
  using assms by (meson split_list_first)

lemma set_lstrip: "set (lstrip s) \<subseteq> set s"
  by (simp add: lstrip_def set_dropWhileD subsetI)

lemma set_rstrip: "set (rstrip s) \<subseteq> set s"
  using set_dropWhileD [of _ isspace "rev s"] by (auto simp: rstrip_def)

lemma set_strip: "set (strip s) \<subseteq> set s"
  using set_lstrip set_rstrip unfolding strip_def by blast

lemma lstrip_colon:
  "CHR '':'' \<notin> set a \<Longrightarrow> \<exists>a'. lstrip (a @ CHR '':'' # b) = a' @ CHR '':'' # b \<and> CHR '':'' \<notin> set a'"
proof (induction a)
  case Nil
  show ?case by (simp add: lstrip_def colon_not_space)
next
  case (Cons x a)
  show ?case
  proof (cases "isspace x")
    case True
    with Cons show ?thesis by (simp add: lstrip_def)
  next
    case False
    with Cons.prems show ?thesis by (auto simp: lstrip_def intro: exI [of _ "x # a"])
  qed
qed

lemma strip_drop_label_strip: "strip (drop_label (strip t)) = strip (drop_label t)"
proof (cases "CHR '':'' \<in> set t")
  case False
  with set_strip [of t] have "CHR '':'' \<notin> set (strip t)" by blast
  with False show ?thesis by (simp add: drop_label_def strip_idem)
next
  case True
  then obtain a b where t: "t = a @ CHR '':'' # b" and a: "CHR '':'' \<notin> set a"
    by (rule colon_split)
  from lstrip_colon [OF a, of b] obtain a' where
    l: "lstrip t = a' @ CHR '':'' # b" and a': "CHR '':'' \<notin> set a'"
    unfolding t by blast
  have "strip t = a' @ CHR '':'' # rstrip b"
    by (simp add: strip_def l rstrip_keep colon_not_space)
  then have "drop_label (strip t) = rstrip b" using a' by (simp add: drop_label_split)
  moreover have "drop_label t = b" using a by (simp add: t drop_label_split)
  ultimately show ?thesis by (simp add: strip_rstrip)
qed

lemma strip_Nil [simp]: "strip [] = []"
  by (simp add: strip_def lstrip_def rstrip_def)

lemma drop_label_Nil [simp]: "drop_label [] = []"
  by (simp add: drop_label_def)

lemma extract_elements_of_parts:
  "extract_elements s =
     (let parts = py_split ''---'' s
      in Inr (strip (drop_label (hd parts)),
              (if length parts > 1 then strip (drop_label (parts ! 1)) else [])))"
proof -
  obtain p ps where parts: "py_split ''---'' s = p # ps"
    using py_split_nonempty [of "''---''" s] by (cases "py_split ''---'' s") auto
  show ?thesis
    by (simp add: extract_elements_def last_item_def parts Let_def last_py_splitn_colon
        strip_drop_label_strip)
qed

text \<open>
  Claim C9, amended. \<open>extract_elements\<close> returns two strings for every input and never
  raises. The primary part comes from the text before the first \<open>---\<close>; the secondary part
  from the text between the first and the second \<open>---\<close> (up to the end when there is no
  second one), and is empty when there is no \<open>---\<close>. From each of the two texts everything
  up to and including the first colon is dropped, later colons are kept, and the rest is
  trimmed. (\<open>p @ "--"\<close> without an occurrence of \<open>---\<close> says that the \<open>---\<close> after \<open>p\<close> is
  the first one.)
\<close>

theorem extract_elements_parts:
  "(\<exists>primary secondary. extract_elements s = Inr (primary, secondary))
   \<and> (\<not> sublist ''---'' s \<longrightarrow> extract_elements s = Inr (strip (drop_label s), []))
   \<and> (\<forall>p r. s = p @ ''---'' @ r \<and> \<not> sublist ''---'' (p @ ''--'') \<and> \<not> sublist ''---'' r \<longrightarrow>
         extract_elements s = Inr (strip (drop_label p), strip (drop_label r)))
   \<and> (\<forall>p q r. s = p @ ''---'' @ q @ ''---'' @ r \<and> \<not> sublist ''---'' (p @ ''--'')
                \<and> \<not> sublist ''---'' (q @ ''--'') \<longrightarrow>
         extract_elements s = Inr (strip (drop_label p), strip (drop_label q)))"
proof (intro conjI allI impI)
  show "\<exists>primary secondary. extract_elements s = Inr (primary, secondary)"
    by (simp add: extract_elements_of_parts Let_def)
next
  assume "\<not> sublist ''---'' s"
  then have "py_split ''---'' s = [s]" by (simp add: py_split_no_sep)
  then show "extract_elements s = Inr (strip (drop_label s), [])"
    by (simp add: extract_elements_of_parts)
next
  fix p r
  assume h: "s = p @ ''---'' @ r \<and> \<not> sublist ''---'' (p @ ''--'') \<and> \<not> sublist ''---'' r"
  then have "py_split ''---'' r = [r]" by (simp add: py_split_no_sep)
  moreover from h have "py_split ''---'' (p @ ''---'' @ r) = p # py_split ''---'' r"
    using py_split_first [of "''---''" p r] by simp
  ultimately show "extract_elements s = Inr (strip (drop_label p), strip (drop_label r))"
    using h by (simp add: extract_elements_of_parts)
next
  fix p q r
  assume h: "s = p @ ''---'' @ q @ ''---'' @ r \<and> \<not> sublist ''---'' (p @ ''--'')
                \<and> \<not> sublist ''---'' (q @ ''--'')"
  then have "py_split ''---'' (q @ ''---'' @ r) = q # py_split ''---'' r"
    using py_split_first [of "''---''" q r] by simp
  moreover from h have "py_split ''---'' (p @ ''---'' @ (q @ ''---'' @ r))
      = p # py_split ''---'' (q @ ''---'' @ r)"
    using py_split_first [of "''---''" p "q @ ''---'' @ r"] by simp
  ultimately show "extract_elements s = Inr (strip (drop_label p), strip (drop_label q))"
    using h by (simp add: extract_elements_of_parts)
qed

text \<open>
  Claim C9 as stated fails: with two separators the secondary part is not the text after
  the first separator.
\<close>

theorem extract_elements_parts_counterexample:
  "''a---b---c'' = ''a'' @ ''---'' @ ''b---c''
   \<and> extract_elements ''a---b---c'' = Inr (''a'', ''b'')
   \<and> ''b'' \<noteq> strip (drop_label ''b---c'')"
  by (simp add: extract_defs strip_defs drop_label_def)

theorem extract_elements_parts_witness:
  "\<not> sublist ''---'' ''Theme: a''
   \<and> extract_elements ''Theme: a'' = Inr (''a'', [])
   \<and> ''A: x---B: y: z'' = ''A: x'' @ ''---'' @ ''B: y: z''
   \<and> \<not> sublist ''---'' (''A: x'' @ ''--'') \<and> \<not> sublist ''---'' ''B: y: z''
   \<and> extract_elements ''A: x---B: y: z'' = Inr (''x'', ''y: z'')
   \<and> ''a---b---c'' = ''a'' @ ''---'' @ ''b'' @ ''---'' @ ''c''
   \<and> \<not> sublist ''---'' (''a'' @ ''--'') \<and> \<not> sublist ''---'' (''b'' @ ''--'')
   \<and> extract_elements ''a---b---c'' = Inr (''a'', ''b'')"
proof -
  have h1: "\<not> sublist ''---'' ''Theme: a''"
    by (simp add: sublist_Cons_right)
  have h2: "''A: x---B: y: z'' = ''A: x'' @ ''---'' @ ''B: y: z''
      \<and> \<not> sublist ''---'' (''A: x'' @ ''--'') \<and> \<not> sublist ''---'' ''B: y: z''"
    by (simp add: sublist_Cons_right)
  have h3: "''a---b---c'' = ''a'' @ ''---'' @ ''b'' @ ''---'' @ ''c''
      \<and> \<not> sublist ''---'' (''a'' @ ''--'') \<and> \<not> sublist ''---'' (''b'' @ ''--'')"
    by (simp add: sublist_Cons_right)
  have v: "strip (drop_label ''Theme: a'') = ''a''" "strip (drop_label ''A: x'') = ''x''"
      "strip (drop_label ''B: y: z'') = ''y: z''" "strip (drop_label ''a'') = ''a''"
      "strip (drop_label ''b'') = ''b''"
    by (simp_all add: strip_defs drop_label_def)
  from extract_elements_parts [of "''Theme: a''"] h1
  have "extract_elements ''Theme: a'' = Inr (strip (drop_label ''Theme: a''), [])"
    by blast
  then have e1: "extract_elements ''Theme: a'' = Inr (''a'', [])"
    by (simp only: v)
  from extract_elements_parts [of "''A: x---B: y: z''"] h2
  have "extract_elements ''A: x---B: y: z'' = Inr (strip (drop_label ''A: x''), strip (drop_label ''B: y: z''))"
    by blast
  then have e2: "extract_elements ''A: x---B: y: z'' = Inr (''x'', ''y: z'')"
    by (simp only: v)
  from extract_elements_parts [of "''a---b---c''"] h3
  have "extract_elements ''a---b---c'' = Inr (strip (drop_label ''a''), strip (drop_label ''b''))"
    by blast
  then have e3: "extract_elements ''a---b---c'' = Inr (''a'', ''b'')"
    by (simp only: v)
  from h1 e1 h2 e2 h3 e3 show ?thesis by blast
qed

section \<open>Properties of \<open>clean_text\<close>\<close>

lemmas clean_defs = clean_text_def content_block_match_def strip_def lstrip_def rstrip_def
  isspace_def

text \<open>
  Claim C8 (the code at an input where it differs from the claim). \<open>clean_text\<close> is not
  idempotent: the quotes are removed after the runs of whitespace have been collapsed, so
  from \<open>a ' b\<close> the first pass returns \<open>a\<close>, two spaces and \<open>b\<close>, a text that the step
  commented "Replace multiple spaces with a single space" was to exclude, and the second
  pass collapses the two spaces.
\<close>

theorem clean_text_not_idempotent:
  "clean_text ''a ' b'' = ''a  b'' \<and> clean_text (clean_text ''a ' b'') = ''a b''
   \<and> clean_text (clean_text ''a ' b'') \<noteq> clean_text ''a ' b''"
  by (simp add: clean_defs)

lemma content_block_match_quote:
  "content_block_match s = Some n \<Longrightarrow> quote \<in> set s"
  by (auto simp: content_block_match_def split: if_splits dest!: set_mono_prefix)

lemma remove_content_block_id:
  "quote \<notin> set s \<Longrightarrow> remove_content_block s = s"
proof (induction s)
  case Nil
  show ?case by simp
next
  case (Cons c cs)
  from Cons.prems have "content_block_match (c # cs) = None"
    using content_block_match_quote [of "c # cs"] by (cases "content_block_match (c # cs)") auto
  with Cons show ?case by simp
qed

lemma py_replace_id:
  "c \<notin> set s \<Longrightarrow> py_replace (c # rest) new s = s"
  by (induction s) auto

lemma set_py_replace:
  "set (py_replace old new s) \<subseteq> set s \<union> set new"
proof (induction old new s rule: py_replace.induct)
  case (1 old new)
  show ?case by simp
next
  case (2 old new c cs)
  show ?case
  proof (cases "prefix old (c # cs)")
    case True
    with "2.IH"(1) have "set (py_replace old new (drop (length old - 1) cs))
        \<subseteq> set (drop (length old - 1) cs) \<union> set new" by simp
    moreover have "set (drop (length old - 1) cs) \<subseteq> set cs" by (rule set_drop_subset)
    ultimately show ?thesis using True by auto
  next
    case False
    with "2.IH"(2) show ?thesis by auto
  qed
qed

lemma py_replace_removes: "c \<notin> set (py_replace [c] [] s)"
  by (induction s) auto

lemma set_collapse_whitespace:
  "set (collapse_whitespace s) \<subseteq> set s \<union> {CHR '' ''}"
proof (induction s rule: collapse_whitespace.induct)
  case 1
  show ?case by simp
next
  case (2 c cs)
  show ?case
  proof (cases "isspace c")
    case True
    with "2.IH"(1) have "set (collapse_whitespace (dropWhile isspace cs))
        \<subseteq> set (dropWhile isspace cs) \<union> {CHR '' ''}" by simp
    moreover have "set (dropWhile isspace cs) \<subseteq> set cs" by (auto dest: set_dropWhileD)
    ultimately show ?thesis using True by auto
  next
    case False
    with "2.IH"(2) show ?thesis by auto
  qed
qed

lemma dropWhile_no_leading: "(case dropWhile P cs of [] \<Rightarrow> True | d # _ \<Rightarrow> \<not> P d)"
  by (induction cs) auto

lemma collapse_no_leading:
  "(case s of [] \<Rightarrow> True | d # _ \<Rightarrow> \<not> isspace d) \<Longrightarrow>
   (case collapse_whitespace s of [] \<Rightarrow> True | d # _ \<Rightarrow> \<not> isspace d)"
  by (cases s) auto

lemma ws_norm_collapse: "ws_norm (collapse_whitespace s)"
proof (induction s rule: collapse_whitespace.induct)
  case 1
  show ?case by simp
next
  case (2 c cs)
  show ?case
  proof (cases "isspace c")
    case True
    with "2.IH"(1) have "ws_norm (collapse_whitespace (dropWhile isspace cs))" by simp
    moreover have "(case collapse_whitespace (dropWhile isspace cs) of [] \<Rightarrow> True | d # _ \<Rightarrow> \<not> isspace d)"
      using dropWhile_no_leading [of isspace cs] by (rule collapse_no_leading)
    ultimately show ?thesis using True by simp
  next
    case False
    with "2.IH"(2) show ?thesis by simp
  qed
qed

lemma collapse_ws_norm: "ws_norm s \<Longrightarrow> collapse_whitespace s = s"
proof (induction s)
  case Nil
  show ?case by simp
next
  case (Cons c cs)
  show ?case
  proof (cases "isspace c")
    case True
    with Cons.prems have c: "c = CHR '' ''" and hd: "(case cs of [] \<Rightarrow> True | d # _ \<Rightarrow> \<not> isspace d)"
      and n: "ws_norm cs" by simp_all
    from hd have "dropWhile isspace cs = cs" by (cases cs) auto
    with True c Cons.IH [OF n] show ?thesis by simp
  next
    case False
    with Cons show ?thesis by simp
  qed
qed

lemma ws_norm_append: "ws_norm (xs @ ys) \<Longrightarrow> ws_norm xs \<and> ws_norm ys"
proof (induction xs)
  case Nil
  then show ?case by simp
next
  case (Cons x xs)
  then show ?case by (cases xs) (auto split: list.splits)
qed

lemma ws_norm_lstrip: "ws_norm s \<Longrightarrow> ws_norm (lstrip s)"
  using ws_norm_append [of "takeWhile isspace s" "dropWhile isspace s"]
  by (simp add: lstrip_def)

lemma ws_norm_rstrip: "ws_norm s \<Longrightarrow> ws_norm (rstrip s)"
proof -
  assume n: "ws_norm s"
  have "rev (rstrip s @ rev (takeWhile isspace (rev s))) = rev s"
    by (simp add: rstrip_def)
  then have "s = rstrip s @ rev (takeWhile isspace (rev s))"
    by (metis rev_rev_ident)
  with n ws_norm_append [of "rstrip s" "rev (takeWhile isspace (rev s))"] show ?thesis
    by simp
qed

lemma ws_norm_strip: "ws_norm s \<Longrightarrow> ws_norm (strip s)"
  by (simp add: strip_def ws_norm_lstrip ws_norm_rstrip)

lemma clean_text_fixed:
  assumes "quote \<notin> set y" and "dquote \<notin> set y" and "backslash \<notin> set y"
    and "ws_norm y" and "strip y = y"
  shows "clean_text y = y"
  using assms
  by (simp add: clean_text_def remove_content_block_id py_replace_id collapse_ws_norm)

lemma clean_text_no_quote: "quote \<notin> set (clean_text x)"
proof -
  have "quote \<notin> set (py_replace [quote] [] s)" for s by (rule py_replace_removes)
  then show ?thesis
    using set_strip unfolding clean_text_def Let_def by blast
qed

lemma clean_text_no_dquote: "dquote \<notin> set (clean_text x)"
proof -
  have "dquote \<notin> set (py_replace [quote] [] (py_replace [dquote] [] s))" for s
    using set_py_replace [of "[quote]" "[]" "py_replace [dquote] [] s"]
      py_replace_removes [of dquote s] by auto
  then show ?thesis
    using set_strip unfolding clean_text_def Let_def by blast
qed

lemma clean_text_no_backslash: "backslash \<notin> set (clean_text x)"
proof -
  let ?t3 = "py_replace [backslash] [] (py_replace [backslash, CHR ''n''] [newline] (remove_content_block x))"
  let ?t4 = "collapse_whitespace ?t3"
  let ?t5 = "py_replace [quote] [] (py_replace [dquote] [] ?t4)"
  have "backslash \<notin> set ?t3" by (rule py_replace_removes)
  then have "backslash \<notin> set ?t4" using set_collapse_whitespace [of ?t3] by auto
  then have "backslash \<notin> set (py_replace [dquote] [] ?t4)"
    using set_py_replace [of "[dquote]" "[]" ?t4] by auto
  then have "backslash \<notin> set ?t5"
    using set_py_replace [of "[quote]" "[]" "py_replace [dquote] [] ?t4"] by auto
  then have "backslash \<notin> set (strip ?t5)" using set_strip [of ?t5] by auto
  then show ?thesis by (simp add: clean_text_def Let_def)
qed

lemma clean_text_stripped: "strip (clean_text x) = clean_text x"
  by (simp add: clean_text_def Let_def strip_idem)

lemma clean_text_ws_norm:
  assumes "quote \<notin> set x" and "dquote \<notin> set x"
  shows "ws_norm (clean_text x)"
proof -
  let ?t2 = "py_replace [backslash, CHR ''n''] [newline] x"
  let ?t3 = "py_replace [backslash] [] ?t2"
  let ?t4 = "collapse_whitespace ?t3"
  have "set ?t2 \<subseteq> set x \<union> {newline}" using set_py_replace [of _ "[newline]" x] by simp
  moreover have "set ?t3 \<subseteq> set ?t2" using set_py_replace [of _ "[]" ?t2] by simp
  moreover have "set ?t4 \<subseteq> set ?t3 \<union> {CHR '' ''}" by (rule set_collapse_whitespace)
  ultimately have "set ?t4 \<subseteq> set x \<union> {newline, CHR '' ''}" by blast
  with assms have q: "quote \<notin> set ?t4" "dquote \<notin> set ?t4" by auto
  then have "py_replace [quote] [] (py_replace [dquote] [] ?t4) = ?t4"
    by (simp add: py_replace_id)
  with assms(1) have "clean_text x = strip ?t4"
    by (simp add: clean_text_def Let_def remove_content_block_id)
  then show ?thesis by (simp add: ws_norm_strip ws_norm_collapse)
qed

lemma clean_text_idem_no_quotes:
  assumes "quote \<notin> set x" and "dquote \<notin> set x"
  shows "clean_text (clean_text x) = clean_text x"
  by (rule clean_text_fixed)
    (rule clean_text_no_quote clean_text_no_dquote clean_text_no_backslash
      clean_text_ws_norm [OF assms] clean_text_stripped)+

text \<open>
  How far the second pass can differ from the first. A cleaned text has no quote and no
  backslash, so the second pass only collapses whitespace and trims: it changes nothing
  exactly when the first pass has left no whitespace to collapse. That is the case for
  every input without quote characters, and for every text that has been cleaned twice.
\<close>

lemma clean_text_plain:
  assumes "quote \<notin> set y" and "dquote \<notin> set y" and "backslash \<notin> set y"
  shows "clean_text y = strip (collapse_whitespace y)"
proof -
  have "set (collapse_whitespace y) \<subseteq> set y \<union> {CHR '' ''}" by (rule set_collapse_whitespace)
  with assms have "quote \<notin> set (collapse_whitespace y)" "dquote \<notin> set (collapse_whitespace y)"
    by auto
  with assms show ?thesis
    by (simp add: clean_text_def remove_content_block_id py_replace_id)
qed

lemma clean_text_second_pass:
  "clean_text (clean_text x) = strip (collapse_whitespace (clean_text x))"
  by (rule clean_text_plain) (rule clean_text_no_quote clean_text_no_dquote clean_text_no_backslash)+

lemma clean_text_idempotent_iff:
  "clean_text (clean_text x) = clean_text x \<longleftrightarrow> ws_norm (clean_text x)"
proof
  assume "clean_text (clean_text x) = clean_text x"
  then have "clean_text x = strip (collapse_whitespace (clean_text x))"
    by (simp add: clean_text_second_pass)
  moreover have "ws_norm (strip (collapse_whitespace (clean_text x)))"
    by (simp add: ws_norm_strip ws_norm_collapse)
  ultimately show "ws_norm (clean_text x)" by simp
next
  assume "ws_norm (clean_text x)"
  then show "clean_text (clean_text x) = clean_text x"
    by (simp add: clean_text_second_pass collapse_ws_norm clean_text_stripped)
qed

lemma clean_text_twice_fixed:
  "clean_text (clean_text (clean_text x)) = clean_text (clean_text x)"
  by (rule clean_text_idem_no_quotes) (rule clean_text_no_quote clean_text_no_dquote)+

lemma clean_text_apostrophe: "clean_text (clean_text ''don't'') = clean_text ''don't''"
  by (simp add: clean_defs)

end
